theory Spec2Isabelle
  imports Main "HOL-Library.Word"
begin

unbundle bit_operations_syntax

section \<open>The debugger and the target, as chibios.py sees them\<close>

text \<open>
  The Python exceptions the modelled functions can raise. A function that mutates module
  state or an object before it raises returns the mutated state together with the error.
\<close>

datatype error = GdbError | MemoryError | AttributeError | IndexError | ValueError | StructError

text \<open>
  The registers chibios.py reads and writes through gdb expressions:
  \<open>$r0\<close> .. \<open>$r15\<close>, \<open>$xpsr\<close>, \<open>$msp\<close> and \<open>$psp\<close>.
\<close>

datatype reg = R nat | XPSR | MSP | PSP

text \<open>
  A \<open>gdb.Block\<close>: its \<open>function\<close> attribute (the symbol's name, or None for an
  anonymous or file-level scope) and its \<open>superblock\<close> (None at the outermost scope).
\<close>

datatype block = Block (block_function: "string option") (superblock: "block option")

text \<open>The fields of a ChibiOS \<open>Thread\<close> record that chibios.py reads.\<close>

record thread_struct =
  p_name :: string
  p_newer :: int
  p_ctx_r13 :: int

text \<open>
  The saved context \<open>struct intctx\<close> that \<open>p_ctx.r13\<close> points to: the field \<open>lr\<close> and
  the fields \<open>r4\<close> .. \<open>r11\<close> (\<open>ctx_r i\<close> is the field named \<open>r\<close>i).
\<close>

record intctx =
  ctx_lr :: int
  ctx_r :: "nat \<Rightarrow> int"

text \<open>
  One stopped target as gdb presents it. Every primitive that can raise is a partial
  function or a flag:
  \<^item> \<open>newest_frame_ok\<close>: whether \<open>gdb.newest_frame().select()\<close> succeeds;
  \<^item> \<open>reg_val r\<close>: the value of \<open>gdb.parse_and_eval("(unsigned long)$r")\<close>, None when
    it raises;
  \<^item> \<open>set_ok r v\<close>: whether \<open>gdb.execute("set $r = v")\<close> is accepted;
  \<^item> \<open>currp_val\<close>, \<open>rlist_r_newer\<close>: the addresses that the expressions \<open>currp\<close> and
    \<open>rlist.r_newer\<close> evaluate to, None when the evaluation raises;
  \<^item> \<open>thread_at a\<close>, \<open>intctx_at a\<close>: the record read through a pointer with address
    \<open>a\<close>, None when the memory cannot be read;
  \<^item> \<open>intctx_size\<close>: \<open>sizeof (struct intctx)\<close> from the debug information, the step of
    pointer arithmetic on \<open>p_ctx.r13\<close>;
  \<^item> \<open>block_for_pc\<close>: \<open>gdb.block_for_pc\<close>, None when no block contains the address;
  \<^item> \<open>memory a\<close>: the byte at address \<open>a\<close>, None when it cannot be read.
\<close>

record target =
  newest_frame_ok :: bool
  reg_val :: "reg \<Rightarrow> int option"
  set_ok :: "reg \<Rightarrow> int \<Rightarrow> bool"
  currp_val :: "int option"
  rlist_r_newer :: "int option"
  thread_at :: "int \<Rightarrow> thread_struct option"
  intctx_at :: "int \<Rightarrow> intctx option"
  intctx_size :: int
  block_for_pc :: "int \<Rightarrow> block option"
  memory :: "int \<Rightarrow> 8 word option"

text \<open>
  A \<open>ChibiThread\<close> object. \<open>tp\<close> is the address held by the \<open>gdb.Value\<close> pointer:
  the source compares pointers with \<open>==\<close> and by their \<open>str\<close>, both of which agree
  with equality of the address.
\<close>

record chibi_thread =
  tp :: int
  name :: string
  lwp :: int
  regs :: "int list"
  active :: bool
  block :: "block option"
  frame_str :: string

text \<open>
  The module state of chibios.py (\<open>reg_cache\<close>, \<open>thread_cache\<close>, \<open>currp\<close> and the class
  attribute \<open>ChibiThread.next_lwp\<close>) together with what the module has done to the outside:
  \<open>writes\<close> lists the accepted register writes in order, \<open>printed\<close> the printed lines, and
  \<open>announced\<close> the identity and label of each thread at its \<open>[New thread ...]\<close> line.
\<close>

record session =
  reg_cache :: "int list"
  thread_cache :: "chibi_thread list"
  currp :: "int option"
  next_lwp :: int
  writes :: "(reg \<times> int) list"
  printed :: "string list"
  announced :: "(int \<times> int) list"

definition init_session :: session where
  "init_session = \<lparr>reg_cache = [], thread_cache = [], currp = None, next_lwp = 1,
     writes = [], printed = [], announced = []\<rparr>"

subsection \<open>set_cpu_regs\<close>

text \<open>\<open>gdb.execute("set $r = v")\<close>: the write is recorded, or gdb raises.\<close>

definition gdb_set :: "target \<Rightarrow> reg \<Rightarrow> int \<Rightarrow> session \<Rightarrow> session \<times> error option" where
  "gdb_set g r v s =
     (if set_ok g r v then (s\<lparr>writes := writes s @ [(r, v)]\<rparr>, None) else (s, Some GdbError))"

text \<open>The loop \<open>for i in range(16)\<close> of \<open>set_cpu_regs\<close>; \<open>regs[i]\<close> raises out of range.\<close>

fun set_gprs :: "target \<Rightarrow> int list \<Rightarrow> nat list \<Rightarrow> session \<Rightarrow> session \<times> error option" where
  "set_gprs g rs [] s = (s, None)"
| "set_gprs g rs (i # js) s =
     (if length rs \<le> i then (s, Some IndexError)
      else case gdb_set g (R i) (rs ! i) s of
             (s', Some e) \<Rightarrow> (s', Some e)
           | (s', None) \<Rightarrow> set_gprs g rs js s')"

text \<open>
  The \<open>try\<close> block around the write of \<open>$xpsr\<close>: its bare \<open>except\<close> catches the error of
  gdb and the \<open>IndexError\<close> of \<open>regs[16]\<close> alike, and prints.
\<close>

definition set_xpsr :: "target \<Rightarrow> int list \<Rightarrow> session \<Rightarrow> session" where
  "set_xpsr g rs s =
     (if length rs \<le> 16 then s\<lparr>printed := printed s @ [''Failed to set xpsr'']\<rparr>
      else case gdb_set g XPSR (rs ! 16) s of
             (s', None) \<Rightarrow> s'
           | (s', Some e) \<Rightarrow> s'\<lparr>printed := printed s' @ [''Failed to set xpsr'']\<rparr>)"

definition set_cpu_regs :: "target \<Rightarrow> int list \<Rightarrow> session \<Rightarrow> session \<times> error option" where
  "set_cpu_regs g rs s =
     (if \<not> newest_frame_ok g then (s, Some GdbError)
      else case set_gprs g rs [0..<16] s of
             (s1, Some e) \<Rightarrow> (s1, Some e)
           | (s1, None) \<Rightarrow>
               (let s2 = set_xpsr g rs s1
                in if length rs \<le> 16 then (s2, Some IndexError)
                   else if (rs ! 16) AND 0xff \<noteq> 0 then gdb_set g MSP (rs ! 13) s2
                   else gdb_set g PSP (rs ! 13) s2))"

subsection \<open>ChibiThread\<close>

text \<open>The format \<open>%X\<close> of Python: upper-case hexadecimal, with a minus sign when negative.\<close>

definition hex_digit :: "nat \<Rightarrow> char" where
  "hex_digit d = ''0123456789ABCDEF'' ! (d mod 16)"

fun hex_nat :: "nat \<Rightarrow> string" where
  "hex_nat n = (if n < 16 then [hex_digit n] else hex_nat (n div 16) @ [hex_digit (n mod 16)])"

declare hex_nat.simps [simp del]

definition format_X :: "int \<Rightarrow> string" where
  "format_X v = (if v < 0 then ''-'' @ hex_nat (nat (- v)) else hex_nat (nat v))"

text \<open>
  The loop \<open>while self.block.function is None: self.block = self.block.superblock\<close>: the
  first block, going outwards, that has a function, with the name of that function. None
  when the outermost block is passed: then \<open>self.block\<close> is None and the attribute access
  raises.
\<close>

fun find_function :: "block \<Rightarrow> (block \<times> string) option" where
  "find_function (Block f sb) =
     (case f of
        Some n \<Rightarrow> Some (Block f sb, n)
      | None \<Rightarrow> (case sb of None \<Rightarrow> None | Some b \<Rightarrow> find_function b))"

text \<open>\<open>ChibiThread._update_frame\<close>.\<close>

definition ChibiThread_update_frame :: "target \<Rightarrow> chibi_thread \<Rightarrow> chibi_thread \<times> error option" where
  "ChibiThread_update_frame g t =
     (if length (regs t) \<le> 15 then (t, Some IndexError)
      else case block_for_pc g (regs t ! 15) of
             None \<Rightarrow> (t\<lparr>block := None\<rparr>, Some AttributeError)
           | Some b \<Rightarrow>
               (case find_function b of
                  None \<Rightarrow> (t\<lparr>block := None\<rparr>, Some AttributeError)
                | Some (fb, n) \<Rightarrow>
                    (t\<lparr>block := Some fb,
                       frame_str := ''0x'' @ format_X (regs t ! 15) @ '' in '' @ n @ '' ()''\<rparr>,
                     None)))"

text \<open>
  \<open>.cast(gdb.lookup_type('unsigned long'))\<close> followed by \<open>int\<close>: the target is a 32-bit ARM,
  its \<open>unsigned long\<close> has 32 bits.
\<close>

definition ulong :: "int \<Rightarrow> int" where
  "ulong v = v mod 2 ^ 32"

text \<open>
  \<open>gdb.selected_inferior().read_memory(a, n)\<close>: the \<open>n\<close> bytes from address \<open>a\<close>, None when
  one of them cannot be read.
\<close>

fun read_memory :: "target \<Rightarrow> int \<Rightarrow> nat \<Rightarrow> 8 word list option" where
  "read_memory g a 0 = Some []"
| "read_memory g a (Suc n) =
     (case memory g a of
        None \<Rightarrow> None
      | Some b \<Rightarrow> (case read_memory g (a + 1) n of None \<Rightarrow> None | Some bs \<Rightarrow> Some (b # bs)))"

text \<open>A little-endian unsigned integer, and \<open>struct.unpack("<nL", buf)\<close>.\<close>

fun le_decode :: "8 word list \<Rightarrow> int" where
  "le_decode [] = 0"
| "le_decode (b # bs) = uint b + 256 * le_decode bs"

fun unpack_words :: "nat \<Rightarrow> 8 word list \<Rightarrow> int list" where
  "unpack_words 0 bs = []"
| "unpack_words (Suc n) bs = le_decode (take 4 bs) # unpack_words n (drop 4 bs)"

definition unpack_L :: "nat \<Rightarrow> 8 word list \<Rightarrow> error + int list" where
  "unpack_L n bs = (if length bs \<noteq> 4 * n then Inl StructError else Inr (unpack_words n bs))"

text \<open>
  Lines 40 to 46 of \<open>_update\<close>, the registers of a thread that is not running, from its
  saved context. \<open>r13\<close> is the pointer \<open>p_ctx.r13\<close> to a \<open>struct intctx\<close>; \<open>r13 + 1\<close> is
  pointer arithmetic of gdb, as in C: the address advances by the size of one
  \<open>struct intctx\<close>. The fields are read through the pointer.
\<close>

definition update_saved_context :: "target \<Rightarrow> int \<Rightarrow> chibi_thread \<Rightarrow> chibi_thread \<times> error option" where
  "update_saved_context g r13 t =
     (if length (regs t) \<le> 13 then (t, Some IndexError)
      else let t1 = t\<lparr>regs := (regs t)[13 := ulong (r13 + 1 * intctx_size g)]\<rparr>
           in case intctx_at g r13 of
                None \<Rightarrow> (t1, Some MemoryError)
              | Some ctx \<Rightarrow>
                  (if length (regs t1) \<le> 15 then (t1, Some IndexError)
                   else let t2 = t1\<lparr>regs := (regs t1)[15 := ulong (ctx_lr ctx)]\<rparr>
                        in (t2\<lparr>regs := fold (\<lambda>i rs. rs[i := ulong (ctx_r ctx i)]) [4..<12] (regs t2)\<rparr>,
                            None)))"

text \<open>
  Lines 50 to 63 of \<open>_update\<close>: when the function of the resolved block is
  \<open>_port_switch_from_isr\<close>, the exception frame is popped from the stack of the thread.
  The slice assignment \<open>regs[:4] = stack[:4]\<close> replaces the first four entries.
\<close>

definition update_unwind :: "target \<Rightarrow> chibi_thread \<Rightarrow> chibi_thread \<times> error option" where
  "update_unwind g t =
     (case read_memory g (regs t ! 13) 32 of
        None \<Rightarrow> (t, Some MemoryError)
      | Some buf \<Rightarrow>
          (case unpack_L 8 buf of
             Inl e \<Rightarrow> (t, Some e)
           | Inr stack \<Rightarrow>
               (let rs1 = take 4 stack @ drop 4 (regs t);
                    rs2 = rs1[12 := stack ! 4];
                    rs3 = rs2[14 := stack ! 5];
                    rs4 = rs3[15 := stack ! 6]
                in if length rs4 \<le> 16 then (t\<lparr>regs := rs4\<rparr>, Some IndexError)
                   else let rs5 = rs4[16 := stack ! 7];
                            rs6 = rs5[13 := rs5 ! 13 + 0x68]
                        in ChibiThread_update_frame g (t\<lparr>regs := rs6\<rparr>))))"

text \<open>
  \<open>ChibiThread._update\<close>, with the module globals \<open>reg_cache\<close> and \<open>currp\<close> as the
  arguments \<open>rc\<close> and \<open>cur\<close>. A \<open>gdb.Value\<close> is never equal to None.
\<close>

definition ChibiThread_update ::
  "target \<Rightarrow> int list \<Rightarrow> int option \<Rightarrow> chibi_thread \<Rightarrow> chibi_thread \<times> error option" where
  "ChibiThread_update g rc cur t =
     (case thread_at g (tp t) of
        None \<Rightarrow> (t, Some MemoryError)
      | Some th \<Rightarrow>
          (let t1 = t\<lparr>name := p_name th, regs := rc\<rparr>
           in if cur = Some (tp t) then ChibiThread_update_frame g (t1\<lparr>active := True\<rparr>)
              else case update_saved_context g (p_ctx_r13 th) (t1\<lparr>active := False\<rparr>) of
                     (t2, Some e) \<Rightarrow> (t2, Some e)
                   | (t2, None) \<Rightarrow>
                       (case ChibiThread_update_frame g t2 of
                          (t3, Some e) \<Rightarrow> (t3, Some e)
                        | (t3, None) \<Rightarrow>
                            (if map_option block_function (block t3) = Some (Some ''_port_switch_from_isr'')
                             then update_unwind g t3
                             else (t3, None)))))"

text \<open>
  \<open>ChibiThread.__init__\<close>, with the class attribute \<open>next_lwp\<close> passed and returned. The
  attributes not yet assigned when \<open>_update\<close> starts hold placeholders; no object that
  \<open>__init__\<close> raised on is ever kept.
\<close>

definition ChibiThread_init ::
  "target \<Rightarrow> int list \<Rightarrow> int option \<Rightarrow> int \<Rightarrow> int \<Rightarrow> (error + chibi_thread) \<times> int" where
  "ChibiThread_init g rc cur n a =
     (case thread_at g a of
        None \<Rightarrow> (Inl MemoryError, n)
      | Some th \<Rightarrow>
          (case ChibiThread_update g rc cur
                  \<lparr>tp = a, name = p_name th, lwp = n, regs = [], active = False,
                   block = None, frame_str = []\<rparr> of
             (t, Some e) \<Rightarrow> (Inl e, n + 1)
           | (t, None) \<Rightarrow> (Inr t, n + 1)))"

subsection \<open>get_cpu_regs\<close>

fun get_gprs :: "target \<Rightarrow> nat list \<Rightarrow> int list \<Rightarrow> error + int list" where
  "get_gprs g [] rs = Inr rs"
| "get_gprs g (i # js) rs =
     (case reg_val g (R i) of
        None \<Rightarrow> Inl GdbError
      | Some v \<Rightarrow> get_gprs g js (rs[i := v]))"

definition get_cpu_regs :: "target \<Rightarrow> error + int list" where
  "get_cpu_regs g =
     (if \<not> newest_frame_ok g then Inl GdbError
      else case get_gprs g [0..<16] (replicate 19 0) of
             Inl e \<Rightarrow> Inl e
           | Inr rs \<Rightarrow>
               (case reg_val g XPSR of
                  None \<Rightarrow> Inl GdbError
                | Some v \<Rightarrow> Inr (rs[16 := v])))"

text \<open>The chain of scopes from a block outwards.\<close>

fun scopes :: "block \<Rightarrow> block list" where
  "scopes (Block f sb) = Block f sb # (case sb of None \<Rightarrow> [] | Some b \<Rightarrow> scopes b)"

text \<open>Reading an upper-case hexadecimal numeral back, to state what \<open>%X\<close> prints.\<close>

definition hex_digit_value :: "char \<Rightarrow> nat" where
  "hex_digit_value c = length (takeWhile (\<lambda>d. d \<noteq> c) ''0123456789ABCDEF'')"

definition hex_value :: "string \<Rightarrow> nat" where
  "hex_value s = foldl (\<lambda>a c. 16 * a + hex_digit_value c) 0 s"

subsection \<open>stop_handler\<close>

text \<open>
  The loop \<open>while True\<close> that follows \<open>p_newer\<close> from \<open>rlist.r_newer\<close>. The list
  \<open>tmp_thread_list\<close> is \<open>first # rest\<close>. The loop need not end (a ring that never
  comes back to its first record and holds no zero context pointer), so it runs on fuel:
  None is the loop still running when the fuel is spent.
\<close>

fun walk_ring :: "target \<Rightarrow> nat \<Rightarrow> int \<Rightarrow> int list \<Rightarrow> (error + int list) option" where
  "walk_ring g 0 first rest = None"
| "walk_ring g (Suc n) first rest =
     (case thread_at g (last (first # rest)) of
        None \<Rightarrow> Some (Inl MemoryError)
      | Some th \<Rightarrow>
          (let a = p_newer th
           in if a = first then Some (Inr (first # rest))
              else case thread_at g a of
                     None \<Rightarrow> Some (Inl MemoryError)
                   | Some th' \<Rightarrow>
                       if p_ctx_r13 th' = 0 then Some (Inr (first # rest))
                       else walk_ring g n first (rest @ [a])))"

text \<open>The loop \<open>for t in thread_cache: t._update()\<close>; the objects are updated in place.\<close>

fun update_all ::
  "target \<Rightarrow> int list \<Rightarrow> int option \<Rightarrow> chibi_thread list \<Rightarrow> chibi_thread list \<times> error option" where
  "update_all g rc cur [] = ([], None)"
| "update_all g rc cur (t # ts) =
     (case ChibiThread_update g rc cur t of
        (t', Some e) \<Rightarrow> (t' # ts, Some e)
      | (t', None) \<Rightarrow> (case update_all g rc cur ts of (ts', e) \<Rightarrow> (t' # ts', e)))"

text \<open>
  The loop over \<open>tmp_thread_list\<close> that creates and announces the threads whose pointer
  is not in \<open>old_thread_set\<close>, the set computed once before the loop.
\<close>

fun announce_new :: "target \<Rightarrow> int list \<Rightarrow> int list \<Rightarrow> session \<Rightarrow> session \<times> error option" where
  "announce_new g old [] s = (s, None)"
| "announce_new g old (a # as) s =
     (if a \<in> set old then announce_new g old as s
      else case ChibiThread_init g (reg_cache s) (currp s) (next_lwp s) a of
             (Inl e, n) \<Rightarrow> (s\<lparr>next_lwp := n\<rparr>, Some e)
           | (Inr ct, n) \<Rightarrow>
               announce_new g old as
                 (s\<lparr>next_lwp := n, thread_cache := thread_cache s @ [ct],
                    printed := printed s @ [''[New thread '' @ [CHR 0x27] @ name ct @ [CHR 0x27] @ '']''],
                    announced := announced s @ [(tp ct, lwp ct)]\<rparr>))"

definition stop_handler :: "nat \<Rightarrow> target \<Rightarrow> session \<Rightarrow> (session \<times> error option) option" where
  "stop_handler fuel g s =
     (case get_cpu_regs g of
        Inl e \<Rightarrow> Some (s, Some e)
      | Inr rc \<Rightarrow>
          (let s1 = s\<lparr>reg_cache := rc\<rparr>
           in case currp_val g of
                None \<Rightarrow> Some (s1\<lparr>currp := None, thread_cache := []\<rparr>, None)
              | Some c \<Rightarrow>
                  (let s2 = s1\<lparr>currp := Some c\<rparr>
                   in case rlist_r_newer g of
                        None \<Rightarrow> Some (s2, Some GdbError)
                      | Some first \<Rightarrow>
                          (case walk_ring g fuel first [] of
                             None \<Rightarrow> None
                           | Some (Inl e) \<Rightarrow> Some (s2, Some e)
                           | Some (Inr tmp_thread_list) \<Rightarrow>
                               (case update_all g (reg_cache s2) (currp s2) (thread_cache s2) of
                                  (ts, Some e) \<Rightarrow> Some (s2\<lparr>thread_cache := ts\<rparr>, Some e)
                                | (ts, None) \<Rightarrow>
                                    (let s3 = s2\<lparr>thread_cache := ts\<rparr>
                                     in case announce_new g (map tp (thread_cache s3))
                                               tmp_thread_list s3 of
                                          (s4, Some e) \<Rightarrow> Some (s4, Some e)
                                        | (s4, None) \<Rightarrow>
                                            Some (set_cpu_regs g (reg_cache s4) s4)))))))"

text \<open>
  A session is a sequence of stops, each on the target as it is then. An exception that
  leaves \<open>stop_handler\<close> is reported by gdb and the session goes on.
\<close>

fun run_stops :: "nat \<Rightarrow> target list \<Rightarrow> session \<Rightarrow> session option" where
  "run_stops fuel [] s = Some s"
| "run_stops fuel (g # gs) s =
     (case stop_handler fuel g s of
        None \<Rightarrow> None
      | Some (s', e) \<Rightarrow> run_stops fuel gs s')"

subsection \<open>The commands \<open>info threads\<close> and \<open>thread\<close>\<close>

text \<open>The format \<open>%d\<close>, and left justification as in \<open>%-4d\<close> and \<open>%-20s\<close>.\<close>

fun dec_nat :: "nat \<Rightarrow> string" where
  "dec_nat n = (if n < 10 then [hex_digit n] else dec_nat (n div 10) @ [hex_digit (n mod 10)])"

declare dec_nat.simps [simp del]

definition format_d :: "int \<Rightarrow> string" where
  "format_d v = (if v < 0 then ''-'' @ dec_nat (nat (- v)) else dec_nat (nat v))"

definition ljust :: "nat \<Rightarrow> string \<Rightarrow> string" where
  "ljust n s = s @ replicate (n - length s) (CHR '' '')"

text \<open>\<open>CommandInfoThreads.invoke\<close>: the header and one line for each entry of \<open>thread_cache\<close>.\<close>

definition info_line :: "chibi_thread \<Rightarrow> string" where
  "info_line t = (if active t then ''*'' else '' '') @ '' '' @ ljust 4 (format_d (lwp t)) @ '' ''
       @ ljust 20 (name t) @ '' '' @ frame_str t"

definition CommandInfoThreads_invoke :: "session \<Rightarrow> session" where
  "CommandInfoThreads_invoke s =
     s\<lparr>printed := printed s @ ''  Id   Target Id            Frame'' # map info_line (thread_cache s)\<rparr>"






subsection \<open>Notions for the traversal of the ring\<close>

text \<open>
  The record that one round of the loop in \<open>stop_handler\<close> appends after the record \<open>l\<close>,
  None when the round ends the loop (by \<open>break\<close> or by a failed read).
\<close>

definition ring_next :: "target \<Rightarrow> int \<Rightarrow> int \<Rightarrow> int option" where
  "ring_next g first l =
     (case thread_at g l of
        None \<Rightarrow> None
      | Some th \<Rightarrow>
          (if p_newer th = first then None
           else case thread_at g (p_newer th) of
                  None \<Rightarrow> None
                | Some th' \<Rightarrow> if p_ctx_r13 th' = 0 then None else Some (p_newer th)))"

text \<open>A list in which every record but the first was appended after its predecessor.\<close>

definition ring_chain :: "target \<Rightarrow> int \<Rightarrow> int list \<Rightarrow> bool" where
  "ring_chain g first L \<longleftrightarrow> (\<forall>i. Suc i < length L \<longrightarrow> ring_next g first (L ! i) = Some (L ! Suc i))"

subsection \<open>Invariants of the session\<close>

text \<open>
  What every stop keeps: the known threads have distinct pointers and nineteen registers
  each, the labels announced so far increase strictly and lie below \<open>next_lwp\<close>.
\<close>

definition session_inv :: "session \<Rightarrow> bool" where
  "session_inv s \<longleftrightarrow>
     distinct (map tp (thread_cache s))
     \<and> sorted_wrt (<) (map snd (announced s))
     \<and> (\<forall>l \<in> set (map snd (announced s)). l < next_lwp s)
     \<and> (\<forall>t \<in> set (thread_cache s). length (regs t) = 19)"

text \<open>As long as the thread list is never cleared, the announcements are its entries.\<close>

definition session_linked :: "session \<Rightarrow> bool" where
  "session_linked s \<longleftrightarrow> announced s = map (\<lambda>t. (tp t, lwp t)) (thread_cache s)"

section \<open>Concrete targets and register sets\<close>

definition base_target :: target where
  "base_target = \<lparr>newest_frame_ok = True, reg_val = (\<lambda>r. Some 0), set_ok = (\<lambda>r v. True),
     currp_val = None, rlist_r_newer = None, thread_at = (\<lambda>a. None), intctx_at = (\<lambda>a. None),
     intctx_size = 36, block_for_pc = (\<lambda>pc. None), memory = (\<lambda>a. None)\<rparr>"

definition handler_regs :: "int list" where
  "handler_regs = [0, 1, 2, 3, 4, 5, 6, 7, 8, 9, 10, 11, 12, 0x20001000, 0xFFFFFFF1, 0x08000100,
     0x0100000F, 0, 0]"

definition thread_regs :: "int list" where
  "thread_regs = [0, 1, 2, 3, 4, 5, 6, 7, 8, 9, 10, 11, 12, 0x20002000, 0x08000201, 0x08000300,
     0x01000000, 0, 0]"


definition xpsr_rejecting_target :: target where
  "xpsr_rejecting_target = base_target\<lparr>set_ok := (\<lambda>r v. r \<noteq> XPSR)\<rparr>"

definition r5_rejecting_target :: target where
  "r5_rejecting_target = base_target\<lparr>set_ok := (\<lambda>r v. r \<noteq> R 5)\<rparr>"

text \<open>
  A small firmware image: \<open>main\<close> with a nested anonymous scope, a thread function, the
  sleep routine and the interrupt-return trampoline. The outermost scope of the file has
  no function.
\<close>

definition file_block :: block where
  "file_block = Block None None"

definition main_inner_block :: block where
  "main_inner_block = Block None (Some (Block (Some ''main'') (Some file_block)))"

definition demo_block_for_pc :: "int \<Rightarrow> block option" where
  "demo_block_for_pc pc =
     (if pc = 0x08000300 then Some main_inner_block
      else if pc = 0x08000400 then Some (Block (Some ''chThdSleep'') (Some file_block))
      else if pc = 0x08000500 then Some (Block (Some ''_port_switch_from_isr'') (Some file_block))
      else if pc = 0x08000600 then Some (Block (Some ''Thread1'') (Some file_block))
      else if pc = 0x08000700 then Some file_block
      else None)"

text \<open>
  The exception frame on the stack of the preempted thread, at \<open>0x20002024\<close>: the words
  r0 = 0x11, r1 = 0x22, r2 = 0x33, r3 = 0x44, r12 = 0xCC, lr = 0x08000601, pc = 0x08000600,
  xpsr = 0x01000000, each little-endian.
\<close>

definition frame_bytes :: "8 word list" where
  "frame_bytes = [0x11, 0, 0, 0,  0x22, 0, 0, 0,  0x33, 0, 0, 0,  0x44, 0, 0, 0,
                  0xCC, 0, 0, 0,  0x01, 0x06, 0, 0x08,  0, 0x06, 0, 0x08,  0, 0, 0, 0x01]"

definition demo_memory :: "int \<Rightarrow> 8 word option" where
  "demo_memory a =
     (if 0x20002024 \<le> a \<and> a < 0x20002044 then Some (frame_bytes ! nat (a - 0x20002024)) else None)"

text \<open>
  Three threads registered after the list header at \<open>0x20000100\<close>, whose context pointer
  is zero: \<open>main\<close> at \<open>0x20000400\<close> is running, \<open>sleeper\<close> at \<open>0x20000800\<close> was switched
  out in \<open>chThdSleep\<close>, \<open>worker\<close> at \<open>0x20000C00\<close> was preempted by an interrupt.
\<close>

definition demo_thread_at :: "int \<Rightarrow> thread_struct option" where
  "demo_thread_at a =
     (if a = 0x20000400 then Some \<lparr>p_name = ''main'', p_newer = 0x20000800, p_ctx_r13 = 0x20000F00\<rparr>
      else if a = 0x20000800 then Some \<lparr>p_name = ''sleeper'', p_newer = 0x20000C00, p_ctx_r13 = 0x20001000\<rparr>
      else if a = 0x20000C00 then Some \<lparr>p_name = ''worker'', p_newer = 0x20000100, p_ctx_r13 = 0x20002000\<rparr>
      else if a = 0x20000100 then Some \<lparr>p_name = [], p_newer = 0x20000400, p_ctx_r13 = 0\<rparr>
      else None)"

definition demo_intctx_at :: "int \<Rightarrow> intctx option" where
  "demo_intctx_at a =
     (if a = 0x20001000 then Some \<lparr>ctx_lr = 0x08000400, ctx_r = (\<lambda>i. 0x100 + int i)\<rparr>
      else if a = 0x20002000 then Some \<lparr>ctx_lr = 0x08000500, ctx_r = (\<lambda>i. 0x200 + int i)\<rparr>
      else None)"

definition demo_target :: target where
  "demo_target = \<lparr>newest_frame_ok = True,
     reg_val = (\<lambda>r. case r of R i \<Rightarrow> (if i < 16 then Some (thread_regs ! i) else None)
                       | XPSR \<Rightarrow> Some 0x01000000 | MSP \<Rightarrow> None | PSP \<Rightarrow> None),
     set_ok = (\<lambda>r v. True),
     currp_val = Some 0x20000400, rlist_r_newer = Some 0x20000400,
     thread_at = demo_thread_at, intctx_at = demo_intctx_at,
     intctx_size = 36, block_for_pc = demo_block_for_pc, memory = demo_memory\<rparr>"

definition fresh_thread :: "int \<Rightarrow> chibi_thread" where
  "fresh_thread a = \<lparr>tp = a, name = [], lwp = 1, regs = thread_regs, active = False,
     block = None, frame_str = []\<rparr>"


text \<open>
  A target just after boot: the only thread, \<open>main\<close> at \<open>0x20000400\<close>, is running and has
  never been switched out, so its saved context pointer still reads as zero; its
  \<open>p_newer\<close> is the list header at \<open>0x20000100\<close>.
\<close>

definition boot_thread_at :: "int \<Rightarrow> thread_struct option" where
  "boot_thread_at a =
     (if a = 0x20000400 then Some \<lparr>p_name = ''main'', p_newer = 0x20000100, p_ctx_r13 = 0\<rparr>
      else if a = 0x20000100 then Some \<lparr>p_name = [], p_newer = 0x20000400, p_ctx_r13 = 0\<rparr>
      else None)"

definition boot_target :: target where
  "boot_target = demo_target\<lparr>thread_at := boot_thread_at\<rparr>"


text \<open>
  An address inside a function inlined into \<open>main\<close>: an anonymous scope, then the scope
  of the inlined \<open>helper\<close>, then that of \<open>main\<close>, then the scope of the file.
\<close>

definition inlined_block :: block where
  "inlined_block =
     Block None (Some (Block (Some ''helper'') (Some (Block (Some ''main'') (Some file_block)))))"

definition inlined_target :: target where
  "inlined_target = demo_target\<lparr>block_for_pc := (\<lambda>pc. if pc = 0x08000300 then Some inlined_block else None)\<rparr>"

section \<open>Register restore\<close>

lemma set_gprs_accepted:
  "\<forall>i \<in> set js. i < length rs \<and> set_ok g (R i) (rs ! i) \<Longrightarrow>
   set_gprs g rs js s = (s\<lparr>writes := writes s @ map (\<lambda>i. (R i, rs ! i)) js\<rparr>, None)"
  by (induction js arbitrary: s) (simp_all add: gdb_set_def)

lemma set_gprs_rejected:
  "\<forall>i \<in> set js. i < length rs \<Longrightarrow> \<exists>i \<in> set js. \<not> set_ok g (R i) (rs ! i) \<Longrightarrow>
   \<exists>ws. set_gprs g rs js s = (s\<lparr>writes := writes s @ ws\<rparr>, Some GdbError)
        \<and> (\<forall>w \<in> set ws. \<exists>i. fst w = R i)"
proof (induction js arbitrary: s)
  case Nil
  then show ?case by simp
next
  case (Cons i js)
  show ?case
  proof (cases "set_ok g (R i) (rs ! i)")
    case False
    have "set_gprs g rs (i # js) s = (s\<lparr>writes := writes s @ []\<rparr>, Some GdbError)"
      using Cons.prems(1) False by (simp add: gdb_set_def)
    then show ?thesis by (intro exI [of _ "[]"]) simp
  next
    case True
    then have "\<exists>j \<in> set js. \<not> set_ok g (R j) (rs ! j)"
      using Cons.prems(2) by auto
    moreover have "\<forall>j \<in> set js. j < length rs"
      using Cons.prems(1) by simp
    ultimately obtain ws where
      ws: "set_gprs g rs js (s\<lparr>writes := writes s @ [(R i, rs ! i)]\<rparr>)
           = (s\<lparr>writes := writes s @ [(R i, rs ! i)] @ ws\<rparr>, Some GdbError)"
          "\<forall>w \<in> set ws. \<exists>i. fst w = R i"
      using Cons.IH [of "s\<lparr>writes := writes s @ [(R i, rs ! i)]\<rparr>"] by auto
    have "set_gprs g rs (i # js) s = (s\<lparr>writes := writes s @ ((R i, rs ! i) # ws)\<rparr>, Some GdbError)"
      using Cons.prems(1) True ws(1) by (simp add: gdb_set_def)
    moreover have "\<forall>w \<in> set ((R i, rs ! i) # ws). \<exists>i. fst w = R i"
      using ws(2) by simp
    ultimately show ?thesis by blast
  qed
qed

text \<open>
  C4. When the sixteen general-purpose writes and the stack-pointer write are accepted,
  restore returns normally and has written, in this order: r0 to r15, the status register
  (if the target accepted it), and last the stack-pointer value \<open>regs[13]\<close> to exactly one
  alias: MSP when the low eight bits of the status register are not all zero (the
  exception-number field: execution inside an exception handler), PSP when they are.
\<close>

theorem set_cpu_regs_selects_stack_pointer:
  assumes "newest_frame_ok g" and "17 \<le> length rs"
    and "\<forall>i < 16. set_ok g (R i) (rs ! i)"
    and "set_ok g MSP (rs ! 13)" and "set_ok g PSP (rs ! 13)"
  shows "\<exists>s' xw. set_cpu_regs g rs s = (s', None)
     \<and> xw = (if set_ok g XPSR (rs ! 16) then [(XPSR, rs ! 16)] else [])
     \<and> writes s' = writes s @ map (\<lambda>i. (R i, rs ! i)) [0..<16] @ xw
                     @ [(if (rs ! 16) AND 0xff \<noteq> 0 then MSP else PSP, rs ! 13)]
     \<and> ((MSP, rs ! 13) \<in> set (drop (length (writes s)) (writes s')) \<longleftrightarrow> (rs ! 16) AND 0xff \<noteq> 0)
     \<and> ((PSP, rs ! 13) \<in> set (drop (length (writes s)) (writes s')) \<longleftrightarrow> (rs ! 16) AND 0xff = 0)"
proof -
  have "\<forall>i \<in> set [0..<16]. i < length rs \<and> set_ok g (R i) (rs ! i)"
    using assms(2,3) by auto
  then have gp: "set_gprs g rs [0..<16] s
      = (s\<lparr>writes := writes s @ map (\<lambda>i. (R i, rs ! i)) [0..<16]\<rparr>, None)"
    by (rule set_gprs_accepted)
  show ?thesis
    unfolding set_cpu_regs_def gp
    using assms(1,2,4,5)
    by (auto simp add: set_xpsr_def gdb_set_def Let_def simp del: upt_rec_numeral)
qed

lemma handler_regs_facts:
  "length handler_regs = 19" "handler_regs ! 13 = 0x20001000" "handler_regs ! 16 AND 0xff \<noteq> 0"
  by (simp_all add: handler_regs_def)

lemma thread_regs_facts:
  "length thread_regs = 19" "thread_regs ! 13 = 0x20002000" "thread_regs ! 16 AND 0xff = 0"
  by (simp_all add: thread_regs_def)

theorem set_cpu_regs_selects_stack_pointer_witness:
  "(\<exists>s'. set_cpu_regs base_target handler_regs init_session = (s', None)
      \<and> last (writes s') = (MSP, 0x20001000) \<and> length (writes s') = 18)
   \<and> (\<exists>s'. set_cpu_regs base_target thread_regs init_session = (s', None)
      \<and> last (writes s') = (PSP, 0x20002000) \<and> length (writes s') = 18)"
proof -
  have ok: "newest_frame_ok base_target" "\<And>rs. \<forall>i < 16. set_ok base_target (R i) (rs ! i)"
    "\<And>r v. set_ok base_target r v"
    by (simp_all add: base_target_def)
  have len: "17 \<le> length handler_regs" "17 \<le> length thread_regs"
    by (simp_all add: handler_regs_facts thread_regs_facts)
  obtain s1 where s1: "set_cpu_regs base_target handler_regs init_session = (s1, None)"
    "writes s1 = writes init_session @ map (\<lambda>i. (R i, handler_regs ! i)) [0..<16]
       @ (if set_ok base_target XPSR (handler_regs ! 16) then [(XPSR, handler_regs ! 16)] else [])
       @ [(if (handler_regs ! 16) AND 0xff \<noteq> 0 then MSP else PSP, handler_regs ! 13)]"
    using set_cpu_regs_selects_stack_pointer [OF ok(1) len(1) ok(2) ok(3) ok(3), of init_session]
    by blast
  obtain s2 where s2: "set_cpu_regs base_target thread_regs init_session = (s2, None)"
    "writes s2 = writes init_session @ map (\<lambda>i. (R i, thread_regs ! i)) [0..<16]
       @ (if set_ok base_target XPSR (thread_regs ! 16) then [(XPSR, thread_regs ! 16)] else [])
       @ [(if (thread_regs ! 16) AND 0xff \<noteq> 0 then MSP else PSP, thread_regs ! 13)]"
    using set_cpu_regs_selects_stack_pointer [OF ok(1) len(2) ok(2) ok(3) ok(3), of init_session]
    by blast
  have "last (writes s1) = (MSP, 0x20001000) \<and> length (writes s1) = 18"
    unfolding s1(2) by (simp add: handler_regs_facts ok(3) init_session_def del: upt_rec_numeral)
  moreover have "last (writes s2) = (PSP, 0x20002000) \<and> length (writes s2) = 18"
    unfolding s2(2) by (simp add: thread_regs_facts ok(3) init_session_def del: upt_rec_numeral)
  ultimately show ?thesis using s1(1) s2(1) by blast
qed

text \<open>
  C5. A rejected write of the status register does not abort restore: the call returns
  normally, the only trace is the printed line, and the stack-pointer write is performed
  as the last write. A rejected write of a general-purpose register aborts restore with
  the error of gdb: what has been written are general-purpose registers only, so neither
  stack-pointer alias is written, and nothing is printed.
\<close>

theorem set_cpu_regs_failure_policy:
  assumes "newest_frame_ok g" and "17 \<le> length rs"
  shows "((\<forall>i < 16. set_ok g (R i) (rs ! i)) \<and> \<not> set_ok g XPSR (rs ! 16)
          \<and> set_ok g MSP (rs ! 13) \<and> set_ok g PSP (rs ! 13) \<longrightarrow>
          (\<exists>s'. set_cpu_regs g rs s = (s', None)
             \<and> printed s' = printed s @ [''Failed to set xpsr'']
             \<and> writes s' = writes s @ map (\<lambda>i. (R i, rs ! i)) [0..<16]
                  @ [(if (rs ! 16) AND 0xff \<noteq> 0 then MSP else PSP, rs ! 13)]))
       \<and> ((\<exists>i < 16. \<not> set_ok g (R i) (rs ! i)) \<longrightarrow>
          (\<exists>s' ws. set_cpu_regs g rs s = (s', Some GdbError)
             \<and> printed s' = printed s
             \<and> writes s' = writes s @ ws \<and> (\<forall>w \<in> set ws. \<exists>i. fst w = R i)))"
proof (intro conjI impI)
  assume a: "(\<forall>i < 16. set_ok g (R i) (rs ! i)) \<and> \<not> set_ok g XPSR (rs ! 16)
          \<and> set_ok g MSP (rs ! 13) \<and> set_ok g PSP (rs ! 13)"
  have "\<forall>i \<in> set [0..<16]. i < length rs \<and> set_ok g (R i) (rs ! i)"
    using assms(2) a by auto
  then have gp: "set_gprs g rs [0..<16] s
      = (s\<lparr>writes := writes s @ map (\<lambda>i. (R i, rs ! i)) [0..<16]\<rparr>, None)"
    by (rule set_gprs_accepted)
  show "\<exists>s'. set_cpu_regs g rs s = (s', None)
             \<and> printed s' = printed s @ [''Failed to set xpsr'']
             \<and> writes s' = writes s @ map (\<lambda>i. (R i, rs ! i)) [0..<16]
                  @ [(if (rs ! 16) AND 0xff \<noteq> 0 then MSP else PSP, rs ! 13)]"
    unfolding set_cpu_regs_def gp
    using assms a
    by (auto simp add: set_xpsr_def gdb_set_def Let_def simp del: upt_rec_numeral)
next
  assume b: "\<exists>i < 16. \<not> set_ok g (R i) (rs ! i)"
  have 1: "\<forall>i \<in> set [0..<16]. i < length rs"
    using assms(2) by auto
  have 2: "\<exists>i \<in> set [0..<16]. \<not> set_ok g (R i) (rs ! i)"
    using b by auto
  obtain ws where
    ws: "set_gprs g rs [0..<16] s = (s\<lparr>writes := writes s @ ws\<rparr>, Some GdbError)"
        "\<forall>w \<in> set ws. \<exists>i. fst w = R i"
    using set_gprs_rejected [OF 1 2, of s] by blast
  have "set_cpu_regs g rs s = (s\<lparr>writes := writes s @ ws\<rparr>, Some GdbError)"
    unfolding set_cpu_regs_def ws(1) using assms(1) by simp
  with ws(2) show "\<exists>s' ws. set_cpu_regs g rs s = (s', Some GdbError)
             \<and> printed s' = printed s
             \<and> writes s' = writes s @ ws \<and> (\<forall>w \<in> set ws. \<exists>i. fst w = R i)"
    by (intro exI [of _ "s\<lparr>writes := writes s @ ws\<rparr>"] exI [of _ ws]) simp
qed

theorem set_cpu_regs_failure_policy_witness:
  "(\<exists>s'. set_cpu_regs xpsr_rejecting_target thread_regs init_session = (s', None)
      \<and> printed s' = [''Failed to set xpsr'']
      \<and> last (writes s') = (PSP, 0x20002000) \<and> length (writes s') = 17)
   \<and> (\<exists>s'. set_cpu_regs r5_rejecting_target thread_regs init_session = (s', Some GdbError)
      \<and> printed s' = []
      \<and> (\<forall>v. (MSP, v) \<notin> set (writes s') \<and> (PSP, v) \<notin> set (writes s')))"
proof -
  have f: "newest_frame_ok xpsr_rejecting_target" "newest_frame_ok r5_rejecting_target"
    by (simp_all add: xpsr_rejecting_target_def r5_rejecting_target_def base_target_def)
  have len: "17 \<le> length thread_regs"
    by (simp add: thread_regs_facts)
  have h1: "(\<forall>i < 16. set_ok xpsr_rejecting_target (R i) (thread_regs ! i))
      \<and> \<not> set_ok xpsr_rejecting_target XPSR (thread_regs ! 16)
      \<and> set_ok xpsr_rejecting_target MSP (thread_regs ! 13)
      \<and> set_ok xpsr_rejecting_target PSP (thread_regs ! 13)"
    by (simp add: xpsr_rejecting_target_def base_target_def)
  have "\<not> set_ok r5_rejecting_target (R 5) (thread_regs ! 5)"
    by (simp add: r5_rejecting_target_def base_target_def)
  then have h2: "\<exists>i < 16. \<not> set_ok r5_rejecting_target (R i) (thread_regs ! i)"
    by (intro exI [of _ 5]) simp
  obtain s1 where s1: "set_cpu_regs xpsr_rejecting_target thread_regs init_session = (s1, None)"
    "printed s1 = printed init_session @ [''Failed to set xpsr'']"
    "writes s1 = writes init_session @ map (\<lambda>i. (R i, thread_regs ! i)) [0..<16]
        @ [(if (thread_regs ! 16) AND 0xff \<noteq> 0 then MSP else PSP, thread_regs ! 13)]"
    using set_cpu_regs_failure_policy [OF f(1) len, of init_session] h1 by blast
  obtain s2 ws where s2: "set_cpu_regs r5_rejecting_target thread_regs init_session = (s2, Some GdbError)"
    "printed s2 = printed init_session" "writes s2 = writes init_session @ ws"
    "\<forall>w \<in> set ws. \<exists>i. fst w = R i"
    using set_cpu_regs_failure_policy [OF f(2) len, of init_session] h2 by blast
  have a: "printed s1 = [''Failed to set xpsr'']
      \<and> last (writes s1) = (PSP, 0x20002000) \<and> length (writes s1) = 17"
    unfolding s1(2,3) by (simp add: thread_regs_facts init_session_def del: upt_rec_numeral)
  have "writes s2 = ws"
    unfolding s2(3) by (simp add: init_session_def)
  then have b: "\<forall>v. (MSP, v) \<notin> set (writes s2) \<and> (PSP, v) \<notin> set (writes s2)"
    using s2(4) by fastforce
  have c: "printed s2 = []"
    unfolding s2(2) by (simp add: init_session_def)
  show ?thesis using s1(1) s2(1) a b c by blast
qed

section \<open>Frame descriptor resolution\<close>

lemma find_function_None_iff:
  "find_function b = None \<longleftrightarrow> (\<forall>c \<in> set (scopes b). block_function c = None)"
  by (induction b rule: find_function.induct) (auto split: option.splits)

lemma find_function_Some:
  "find_function b = Some (fb, n) \<Longrightarrow> fb \<in> set (scopes b) \<and> block_function fb = Some n"
  by (induction b rule: find_function.induct) (auto split: option.splits)

lemma find_function_first:
  "scopes b = pre @ fb # post \<Longrightarrow> \<forall>c \<in> set pre. block_function c = None \<Longrightarrow>
   block_function fb = Some n \<Longrightarrow> find_function b = Some (fb, n)"
proof (induction b arbitrary: pre rule: find_function.induct)
  case (1 f sb)
  show ?case
  proof (cases pre)
    case Nil
    then have "fb = Block f sb" using "1.prems"(1) by simp
    then have "f = Some n" using "1.prems"(3) by simp
    then show ?thesis using \<open>fb = Block f sb\<close> by simp
  next
    case (Cons p pre')
    then have p: "p = Block f sb" and rest: "(case sb of None \<Rightarrow> [] | Some b \<Rightarrow> scopes b) = pre' @ fb # post"
      using "1.prems"(1) by simp_all
    have f: "f = None" using "1.prems"(2) Cons p by simp
    obtain b' where sb: "sb = Some b'" using rest by (cases sb) simp_all
    have "find_function b' = Some (fb, n)"
    proof (rule "1.IH" [OF f sb])
      show "scopes b' = pre' @ fb # post" using rest sb by simp
      show "\<forall>c \<in> set pre'. block_function c = None" using "1.prems"(2) Cons by simp
      show "block_function fb = Some n" by (rule "1.prems"(3))
    qed
    then show ?thesis using f sb by simp
  qed
qed

lemma hex_digit_value_digit: "d < 16 \<Longrightarrow> hex_digit_value (hex_digit d) = d"
proof -
  assume "d < 16"
  then have "d = 0 \<or> d = 1 \<or> d = 2 \<or> d = 3 \<or> d = 4 \<or> d = 5 \<or> d = 6 \<or> d = 7 \<or> d = 8
      \<or> d = 9 \<or> d = 10 \<or> d = 11 \<or> d = 12 \<or> d = 13 \<or> d = 14 \<or> d = 15"
    by arith
  then show ?thesis
    by (elim disjE) (simp_all add: hex_digit_def hex_digit_value_def)
qed

lemma hex_digit_nonzero: "0 < d \<Longrightarrow> d < 16 \<Longrightarrow> hex_digit d \<noteq> CHR ''0''"
proof -
  assume "0 < d" "d < 16"
  then have "d = 1 \<or> d = 2 \<or> d = 3 \<or> d = 4 \<or> d = 5 \<or> d = 6 \<or> d = 7 \<or> d = 8
      \<or> d = 9 \<or> d = 10 \<or> d = 11 \<or> d = 12 \<or> d = 13 \<or> d = 14 \<or> d = 15"
    by arith
  then show ?thesis
    by (elim disjE) (simp_all add: hex_digit_def)
qed

lemma hex_digit_in: "hex_digit d \<in> set ''0123456789ABCDEF''"
proof -
  have "d mod 16 < length ''0123456789ABCDEF''" by simp
  then show ?thesis unfolding hex_digit_def by (rule nth_mem)
qed

lemma hex_value_snoc: "hex_value (s @ [c]) = 16 * hex_value s + hex_digit_value c"
  by (simp add: hex_value_def)

lemma hex_value_hex_nat: "hex_value (hex_nat n) = n"
proof (induction n rule: hex_nat.induct)
  case (1 n)
  show ?case
  proof (cases "n < 16")
    case True
    then have "hex_nat n = [] @ [hex_digit n]" by (simp add: hex_nat.simps [of n])
    then have "hex_value (hex_nat n) = 16 * hex_value [] + hex_digit_value (hex_digit n)"
      by (simp only: hex_value_snoc)
    then show ?thesis using True by (simp add: hex_digit_value_digit hex_value_def)
  next
    case False
    then have "hex_nat n = hex_nat (n div 16) @ [hex_digit (n mod 16)]"
      by (simp add: hex_nat.simps [of n])
    then have "hex_value (hex_nat n) = 16 * hex_value (hex_nat (n div 16))
        + hex_digit_value (hex_digit (n mod 16))"
      by (simp only: hex_value_snoc)
    then show ?thesis using "1.IH" [OF False] by (simp add: hex_digit_value_digit)
  qed
qed

lemma hex_nat_digits: "set (hex_nat n) \<subseteq> set ''0123456789ABCDEF''"
proof (induction n rule: hex_nat.induct)
  case (1 n)
  show ?case
  proof (cases "n < 16")
    case True
    then have "hex_nat n = [hex_digit n]" by (simp add: hex_nat.simps [of n])
    then show ?thesis using hex_digit_in [of n] by simp
  next
    case False
    then have "hex_nat n = hex_nat (n div 16) @ [hex_digit (n mod 16)]"
      by (simp add: hex_nat.simps [of n])
    then show ?thesis using "1.IH" [OF False] hex_digit_in [of "n mod 16"] by simp
  qed
qed

lemma hex_nat_leading: "0 < n \<Longrightarrow> hex_nat n \<noteq> [] \<and> hd (hex_nat n) \<noteq> CHR ''0''"
proof (induction n rule: hex_nat.induct)
  case (1 n)
  show ?case
  proof (cases "n < 16")
    case True
    then have "hex_nat n = [hex_digit n]" by (simp add: hex_nat.simps [of n])
    then show ?thesis using hex_digit_nonzero [of n] "1.prems" True by simp
  next
    case False
    then have e: "hex_nat n = hex_nat (n div 16) @ [hex_digit (n mod 16)]"
      by (simp add: hex_nat.simps [of n])
    have "0 < n div 16" using False by simp
    then have "hex_nat (n div 16) \<noteq> [] \<and> hd (hex_nat (n div 16)) \<noteq> CHR ''0''"
      by (rule "1.IH" [OF False])
    then show ?thesis using e by simp
  qed
qed

text \<open>
  C8, as the code has it. Resolution has no placeholder. When the block of the program
  counter exists and some scope in its chain has a function, the first such scope going
  outwards (every scope before it in the chain has none) is kept, and the display string
  is \<open>0x\<close>, the program counter in upper-case hexadecimal without leading zeros,
  \<open> in \<close>, the name of the function and \<open> ()\<close>. When \<open>gdb.block_for_pc\<close> returns None,
  or no scope of the chain has a function, the attribute access on None raises
  \<open>AttributeError\<close> and the display string is left as it was.
\<close>

theorem update_frame_resolution:
  assumes "15 < length (regs t)" and "pc = regs t ! 15"
  shows "(\<forall>b pre fb post n.
            block_for_pc g pc = Some b \<and> scopes b = pre @ fb # post
            \<and> (\<forall>c \<in> set pre. block_function c = None) \<and> block_function fb = Some n \<longrightarrow>
            ChibiThread_update_frame g t
              = (t\<lparr>block := Some fb,
                   frame_str := ''0x'' @ format_X pc @ '' in '' @ n @ '' ()''\<rparr>, None))
       \<and> (block_for_pc g pc = None
            \<or> (\<exists>b. block_for_pc g pc = Some b
                    \<and> (\<forall>c \<in> set (scopes b). block_function c = None)) \<longrightarrow>
            ChibiThread_update_frame g t = (t\<lparr>block := None\<rparr>, Some AttributeError))
       \<and> (0 \<le> pc \<longrightarrow> hex_value (format_X pc) = nat pc
              \<and> set (format_X pc) \<subseteq> set ''0123456789ABCDEF''
              \<and> (0 < pc \<longrightarrow> hd (format_X pc) \<noteq> CHR ''0''))"
proof (intro conjI allI impI)
  fix b pre fb post n
  assume a: "block_for_pc g pc = Some b \<and> scopes b = pre @ fb # post
            \<and> (\<forall>c \<in> set pre. block_function c = None) \<and> block_function fb = Some n"
  then have "find_function b = Some (fb, n)"
    using find_function_first [of b pre fb post n] by simp
  then show "ChibiThread_update_frame g t
              = (t\<lparr>block := Some fb,
                   frame_str := ''0x'' @ format_X pc @ '' in '' @ n @ '' ()''\<rparr>, None)"
    using assms a by (simp add: ChibiThread_update_frame_def)
next
  assume "block_for_pc g pc = None
            \<or> (\<exists>b. block_for_pc g pc = Some b
                    \<and> (\<forall>c \<in> set (scopes b). block_function c = None))"
  then show "ChibiThread_update_frame g t = (t\<lparr>block := None\<rparr>, Some AttributeError)"
    using assms
    by (auto simp add: ChibiThread_update_frame_def find_function_None_iff [symmetric])
next
  assume "0 \<le> pc"
  then show "hex_value (format_X pc) = nat pc"
    by (simp add: format_X_def hex_value_hex_nat)
next
  assume "0 \<le> pc"
  then show "set (format_X pc) \<subseteq> set ''0123456789ABCDEF''"
    using hex_nat_digits [of "nat pc"] by (simp add: format_X_def)
next
  assume "0 \<le> pc" "0 < pc"
  then show "hd (format_X pc) \<noteq> CHR ''0''"
    using hex_nat_leading [of "nat pc"] by (simp add: format_X_def)
qed

theorem update_frame_resolution_witness:
  "ChibiThread_update_frame inlined_target (fresh_thread 0x20000400)
     = ((fresh_thread 0x20000400)
          \<lparr>block := Some (Block (Some ''helper'') (Some (Block (Some ''main'') (Some file_block)))),
           frame_str := ''0x8000300 in helper ()''\<rparr>, None)
   \<and> ChibiThread_update_frame base_target (fresh_thread 0x20000400)
     = ((fresh_thread 0x20000400)\<lparr>block := None\<rparr>, Some AttributeError)
   \<and> hex_value ''8000300'' = 0x8000300"
proof -
  let ?helper = "Block (Some ''helper'') (Some (Block (Some ''main'') (Some file_block)))"
  let ?main = "Block (Some ''main'') (Some file_block)"
  have len: "15 < length (regs (fresh_thread 0x20000400))"
    by (simp add: fresh_thread_def thread_regs_def)
  have pc: "(0x08000300 :: int) = regs (fresh_thread 0x20000400) ! 15"
    by (simp add: fresh_thread_def thread_regs_def)
  note r = update_frame_resolution [OF len pc]
  have b: "block_for_pc inlined_target 0x08000300 = Some inlined_block
      \<and> scopes inlined_block = [inlined_block] @ ?helper # [?main, file_block]
      \<and> (\<forall>c \<in> set [inlined_block]. block_function c = None)
      \<and> block_function ?helper = Some ''helper''"
    by (simp add: inlined_target_def inlined_block_def file_block_def)
  have n: "block_for_pc base_target 0x08000300 = None"
    by (simp add: base_target_def)
  have x: "format_X 0x08000300 = ''8000300''"
    by (simp add: format_X_def hex_nat.simps hex_digit_def)
  have 1: "ChibiThread_update_frame inlined_target (fresh_thread 0x20000400)
     = ((fresh_thread 0x20000400)\<lparr>block := Some ?helper,
          frame_str := ''0x'' @ format_X 0x08000300 @ '' in '' @ ''helper'' @ '' ()''\<rparr>, None)"
    using r [of inlined_target, THEN conjunct1, rule_format, OF b] .
  have 2: "ChibiThread_update_frame base_target (fresh_thread 0x20000400)
     = ((fresh_thread 0x20000400)\<lparr>block := None\<rparr>, Some AttributeError)"
    using r [of base_target, THEN conjunct2, THEN conjunct1] n by simp
  have 3: "hex_value (format_X 0x08000300) = nat 0x08000300"
    using r [of base_target, THEN conjunct2, THEN conjunct2] by simp
  show ?thesis
    using 1 2 3 unfolding x by simp
qed

text \<open>
  The claim C8 as stated fails: at an address with no enclosing block, and at an address
  whose only scope is the function-less scope of the file, resolution raises, and no
  placeholder name is stored.
\<close>

theorem update_frame_raises_counterexample:
  "snd (ChibiThread_update_frame base_target (fresh_thread 0x20000400)) = Some AttributeError
   \<and> snd (ChibiThread_update_frame demo_target
             ((fresh_thread 0x20000400)\<lparr>regs := thread_regs[15 := 0x08000700]\<rparr>)) = Some AttributeError
   \<and> frame_str (fst (ChibiThread_update_frame base_target (fresh_thread 0x20000400))) = []"
  by (simp add: ChibiThread_update_frame_def base_target_def demo_target_def fresh_thread_def
      thread_regs_def demo_block_for_pc_def file_block_def)

section \<open>Context reconstruction\<close>

lemma read_memory_map:
  "(\<forall>k < n. memory g (a + int k) = Some (m k)) \<Longrightarrow> read_memory g a n = Some (map m [0..<n])"
proof (induction n arbitrary: a m)
  case 0
  then show ?case by simp
next
  case (Suc n)
  have 0: "memory g a = Some (m 0)"
    using Suc.prems [rule_format, of 0] by simp
  have "\<forall>k < n. memory g (a + 1 + int k) = Some ((m \<circ> Suc) k)"
  proof (intro allI impI)
    fix k assume "k < n"
    then have "Suc k < Suc n" by simp
    then have "memory g (a + int (Suc k)) = Some (m (Suc k))"
      using Suc.prems by blast
    then show "memory g (a + 1 + int k) = Some ((m \<circ> Suc) k)"
      by (simp add: add.assoc)
  qed
  then have "read_memory g (a + 1) n = Some (map (m \<circ> Suc) [0..<n])"
    by (rule Suc.IH)
  moreover have "map m [0..<Suc n] = m 0 # map (m \<circ> Suc) [0..<n]"
    by (simp add: upt_conv_Cons map_Suc_upt [symmetric] del: upt_Suc)
  ultimately show ?case using 0 by simp
qed

lemma unpack_L_8:
  "unpack_L 8 (map m [0..<32]) =
     Inr (map (\<lambda>j. uint (m (4 * j)) + 256 * uint (m (4 * j + 1)) + 65536 * uint (m (4 * j + 2))
                   + 16777216 * uint (m (4 * j + 3))) [0..<8])"
  by (simp add: unpack_L_def eval_nat_numeral upt_conv_Cons)

lemma update_saved_context_ok:
  assumes "intctx_at g r13 = Some ctx" and "16 \<le> length (regs t)"
  shows "update_saved_context g r13 t
     = (t\<lparr>regs := (regs t)[13 := ulong (r13 + intctx_size g), 15 := ulong (ctx_lr ctx),
            4 := ulong (ctx_r ctx 4), 5 := ulong (ctx_r ctx 5), 6 := ulong (ctx_r ctx 6),
            7 := ulong (ctx_r ctx 7), 8 := ulong (ctx_r ctx 8), 9 := ulong (ctx_r ctx 9),
            10 := ulong (ctx_r ctx 10), 11 := ulong (ctx_r ctx 11)]\<rparr>, None)"
  using assms by (simp add: update_saved_context_def Let_def upt_conv_Cons)

text \<open>
  C2, as the code has it. For a thread that is not the running one, whose records can be
  read and whose register cache has at least sixteen entries, the registers before any
  unwinding are: r13 = the saved stack pointer plus the size of one saved-context record
  (\<open>r13 + 1\<close> is pointer arithmetic on a pointer to \<open>struct intctx\<close>), as an unsigned long;
  r15 = the saved \<open>lr\<close>; r4 to r11 = the saved fields of the same names; every other
  entry as in the register cache. When the saved \<open>lr\<close> resolves to a function other than
  the trampoline, these are the registers \<open>_update\<close> leaves.
\<close>

theorem saved_context_registers:
  assumes "thread_at g (tp t) = Some th" and "cur \<noteq> Some (tp t)"
    and "intctx_at g (p_ctx_r13 th) = Some ctx" and "16 \<le> length rc"
  shows "\<exists>t2. update_saved_context g (p_ctx_r13 th) (t\<lparr>name := p_name th, regs := rc, active := False\<rparr>)
            = (t2, None)
     \<and> length (regs t2) = length rc
     \<and> regs t2 ! 13 = ulong (p_ctx_r13 th + intctx_size g)
     \<and> regs t2 ! 15 = ulong (ctx_lr ctx)
     \<and> (\<forall>i. 4 \<le> i \<and> i < 12 \<longrightarrow> regs t2 ! i = ulong (ctx_r ctx i))
     \<and> (\<forall>i < length rc. i < 4 \<or> i = 12 \<or> i = 14 \<or> 16 \<le> i \<longrightarrow> regs t2 ! i = rc ! i)
     \<and> (\<forall>b fb n. block_for_pc g (ulong (ctx_lr ctx)) = Some b \<and> find_function b = Some (fb, n)
            \<and> n \<noteq> ''_port_switch_from_isr'' \<longrightarrow>
          ChibiThread_update g rc cur t
            = (t2\<lparr>block := Some fb,
                  frame_str := ''0x'' @ format_X (ulong (ctx_lr ctx)) @ '' in '' @ n @ '' ()''\<rparr>, None))"
proof -
  define t2 where "t2 = t\<lparr>name := p_name th, active := False,
     regs := rc[13 := ulong (p_ctx_r13 th + intctx_size g), 15 := ulong (ctx_lr ctx),
            4 := ulong (ctx_r ctx 4), 5 := ulong (ctx_r ctx 5), 6 := ulong (ctx_r ctx 6),
            7 := ulong (ctx_r ctx 7), 8 := ulong (ctx_r ctx 8), 9 := ulong (ctx_r ctx 9),
            10 := ulong (ctx_r ctx 10), 11 := ulong (ctx_r ctx 11)]\<rparr>"
  have u: "update_saved_context g (p_ctx_r13 th) (t\<lparr>name := p_name th, regs := rc, active := False\<rparr>)
      = (t2, None)"
    using update_saved_context_ok [OF assms(3), of "t\<lparr>name := p_name th, regs := rc, active := False\<rparr>"]
      assms(4) by (simp add: t2_def)
  have r: "regs t2 = rc[13 := ulong (p_ctx_r13 th + intctx_size g), 15 := ulong (ctx_lr ctx),
            4 := ulong (ctx_r ctx 4), 5 := ulong (ctx_r ctx 5), 6 := ulong (ctx_r ctx 6),
            7 := ulong (ctx_r ctx 7), 8 := ulong (ctx_r ctx 8), 9 := ulong (ctx_r ctx 9),
            10 := ulong (ctx_r ctx 10), 11 := ulong (ctx_r ctx 11)]"
    by (simp add: t2_def)
  have len: "length (regs t2) = length rc"
    by (simp add: r)
  have r13: "regs t2 ! 13 = ulong (p_ctx_r13 th + intctx_size g)"
    using assms(4) by (simp add: r)
  have r15: "regs t2 ! 15 = ulong (ctx_lr ctx)"
    using assms(4) by (simp add: r)
  have saved: "\<forall>i. 4 \<le> i \<and> i < 12 \<longrightarrow> regs t2 ! i = ulong (ctx_r ctx i)"
  proof (intro allI impI)
    fix i :: nat assume "4 \<le> i \<and> i < 12"
    then have "i \<in> {4, 5, 6, 7, 8, 9, 10, 11}" by auto
    then show "regs t2 ! i = ulong (ctx_r ctx i)"
      using assms(4) by (auto simp add: r)
  qed
  have kept: "\<forall>i < length rc. i < 4 \<or> i = 12 \<or> i = 14 \<or> 16 \<le> i \<longrightarrow> regs t2 ! i = rc ! i"
    by (auto simp add: r)
  have whole: "\<forall>b fb n. block_for_pc g (ulong (ctx_lr ctx)) = Some b \<and> find_function b = Some (fb, n)
            \<and> n \<noteq> ''_port_switch_from_isr'' \<longrightarrow>
          ChibiThread_update g rc cur t
            = (t2\<lparr>block := Some fb,
                  frame_str := ''0x'' @ format_X (ulong (ctx_lr ctx)) @ '' in '' @ n @ '' ()''\<rparr>, None)"
  proof (intro allI impI)
    fix b fb n
    assume a: "block_for_pc g (ulong (ctx_lr ctx)) = Some b \<and> find_function b = Some (fb, n)
            \<and> n \<noteq> ''_port_switch_from_isr''"
    have l: "15 < length (regs t2)" using assms(4) len by simp
    have f: "ChibiThread_update_frame g t2
        = (t2\<lparr>block := Some fb,
              frame_str := ''0x'' @ format_X (ulong (ctx_lr ctx)) @ '' in '' @ n @ '' ()''\<rparr>, None)"
      using a l find_function_Some [of b fb n]
      by (simp add: ChibiThread_update_frame_def r15)
    have bf: "block_function fb = Some n"
      using a find_function_Some by blast
    show "ChibiThread_update g rc cur t
            = (t2\<lparr>block := Some fb,
                  frame_str := ''0x'' @ format_X (ulong (ctx_lr ctx)) @ '' in '' @ n @ '' ()''\<rparr>, None)"
      using assms(1,2) a bf by (simp add: ChibiThread_update_def Let_def u f)
  qed
  from u len r13 r15 saved kept whole show ?thesis by blast
qed

lemma demo_sleeper_facts:
  "thread_at demo_target 0x20000800
     = Some \<lparr>p_name = ''sleeper'', p_newer = 0x20000C00, p_ctx_r13 = 0x20001000\<rparr>"
  "intctx_at demo_target 0x20001000 = Some \<lparr>ctx_lr = 0x08000400, ctx_r = (\<lambda>i. 0x100 + int i)\<rparr>"
  "intctx_size demo_target = 36"
  "block_for_pc demo_target 0x08000400 = Some (Block (Some ''chThdSleep'') (Some file_block))"
  by (simp_all add: demo_target_def demo_thread_at_def demo_intctx_at_def demo_block_for_pc_def)

theorem saved_context_registers_witness:
  "\<exists>t'. ChibiThread_update demo_target thread_regs (Some 0x20000400) (fresh_thread 0x20000800)
           = (t', None)
     \<and> regs t' ! 13 = 0x20001000 + 36 \<and> regs t' ! 15 = 0x08000400
     \<and> regs t' ! 4 = 0x104 \<and> regs t' ! 11 = 0x10B \<and> regs t' ! 0 = 0 \<and> regs t' ! 12 = 12
     \<and> frame_str t' = ''0x8000400 in chThdSleep ()''"
proof -
  let ?th = "\<lparr>p_name = ''sleeper'', p_newer = 0x20000C00, p_ctx_r13 = 0x20001000\<rparr>"
  let ?ctx = "\<lparr>ctx_lr = 0x08000400, ctx_r = (\<lambda>i. 0x100 + int i)\<rparr>"
  have h: "thread_at demo_target (tp (fresh_thread 0x20000800)) = Some ?th"
    "Some (0x20000400 :: int) \<noteq> Some (tp (fresh_thread 0x20000800))"
    "intctx_at demo_target (p_ctx_r13 ?th) = Some ?ctx"
    "16 \<le> length thread_regs"
    by (simp_all add: demo_sleeper_facts fresh_thread_def thread_regs_def)
  have lr: "ulong (ctx_lr ?ctx) = 0x08000400" "ulong (p_ctx_r13 ?th + intctx_size demo_target) = 0x20001024"
    "ulong (ctx_r ?ctx 4) = 0x104" "ulong (ctx_r ?ctx 11) = 0x10B"
    by (simp_all add: ulong_def demo_sleeper_facts)
  have b: "block_for_pc demo_target (ulong (ctx_lr ?ctx)) = Some (Block (Some ''chThdSleep'') (Some file_block))
      \<and> find_function (Block (Some ''chThdSleep'') (Some file_block))
          = Some (Block (Some ''chThdSleep'') (Some file_block), ''chThdSleep'')
      \<and> ''chThdSleep'' \<noteq> ''_port_switch_from_isr''"
    unfolding lr by (simp add: demo_sleeper_facts)
  have x: "format_X 0x08000400 = ''8000400''"
    by (simp add: format_X_def hex_nat.simps hex_digit_def)
  obtain t2 where t2: "regs t2 ! 13 = ulong (p_ctx_r13 ?th + intctx_size demo_target)"
    "regs t2 ! 15 = ulong (ctx_lr ?ctx)"
    "\<forall>i. 4 \<le> i \<and> i < 12 \<longrightarrow> regs t2 ! i = ulong (ctx_r ?ctx i)"
    "\<forall>i < length thread_regs. i < 4 \<or> i = 12 \<or> i = 14 \<or> 16 \<le> i \<longrightarrow> regs t2 ! i = thread_regs ! i"
    "ChibiThread_update demo_target thread_regs (Some 0x20000400) (fresh_thread 0x20000800)
       = (t2\<lparr>block := Some (Block (Some ''chThdSleep'') (Some file_block)),
             frame_str := ''0x'' @ format_X (ulong (ctx_lr ?ctx)) @ '' in '' @ ''chThdSleep'' @ '' ()''\<rparr>, None)"
    using saved_context_registers [OF h] b
    by blast
  have "regs t2 ! 4 = ulong (ctx_r ?ctx 4)" "regs t2 ! 11 = ulong (ctx_r ?ctx 11)"
    using t2(3) by simp_all
  moreover have "regs t2 ! 0 = thread_regs ! 0" "regs t2 ! 12 = thread_regs ! 12"
    using t2(4) [rule_format, of 0] t2(4) [rule_format, of 12]
    by (simp_all add: thread_regs_facts)
  then have "regs t2 ! 0 = 0" "regs t2 ! 12 = 12"
    by (simp_all add: thread_regs_def)
  ultimately show ?thesis
    using t2(1,2) unfolding t2(5) lr x by simp
qed

text \<open>
  The claim C2 as stated fails: with the saved context of the ChibiOS port (r4 to r11 and
  lr, 36 bytes) the reconstructed stack pointer is 36 bytes above the saved one, not one
  machine word (4 bytes) above it.
\<close>

theorem saved_stack_pointer_counterexample:
  "map_option p_ctx_r13 (thread_at demo_target 0x20000800) = Some 0x20001000
   \<and> regs (fst (ChibiThread_update demo_target thread_regs (Some 0x20000400)
                  (fresh_thread 0x20000800))) ! 13 = 0x20001024
   \<and> regs (fst (ChibiThread_update demo_target thread_regs (Some 0x20000400)
                  (fresh_thread 0x20000800))) ! 13 \<noteq> 0x20001000 + 4"
  by (simp add: ChibiThread_update_def ChibiThread_update_frame_def update_saved_context_def
      demo_sleeper_facts fresh_thread_def thread_regs_def ulong_def Let_def upt_conv_Cons
      file_block_def)

lemma update_unwind_regs:
  assumes "\<forall>k < 32. memory g (regs t ! 13 + int k) = Some (m k)" and "17 \<le> length (regs t)"
    and "w = (\<lambda>j. uint (m (4 * j)) + 256 * uint (m (4 * j + 1)) + 65536 * uint (m (4 * j + 2))
                   + 16777216 * uint (m (4 * j + 3)))"
  shows "regs (fst (update_unwind g t))
     = (take 4 (map w [0..<8]) @ drop 4 (regs t))
         [12 := w 4, 14 := w 5, 15 := w 6, 16 := w 7, 13 := regs t ! 13 + 0x68]"
proof -
  have rd: "read_memory g (regs t ! 13) 32 = Some (map m [0..<32])"
    using assms(1) by (rule read_memory_map)
  have un: "unpack_L 8 (map m [0..<32]) = Inr (map w [0..<8])"
    unfolding assms(3) by (rule unpack_L_8)
  have st: "map w [0..<8] ! 4 = w 4" "map w [0..<8] ! 5 = w 5" "map w [0..<8] ! 6 = w 6"
    "map w [0..<8] ! 7 = w 7"
    by simp_all
  let ?rs4 = "(take 4 (map w [0..<8]) @ drop 4 (regs t))[12 := w 4, 14 := w 5, 15 := w 6]"
  have len: "\<not> length ?rs4 \<le> 16"
    using assms(2) by simp
  have r13: "?rs4[16 := w 7] ! 13 = regs t ! 13"
    using assms(2) by (simp add: nth_append)
  have "update_unwind g t
      = ChibiThread_update_frame g (t\<lparr>regs := ?rs4[16 := w 7, 13 := regs t ! 13 + 0x68]\<rparr>)"
    unfolding update_unwind_def rd un option.case sum.case Let_def st r13 if_not_P [OF len]
    by (rule refl)
  then show ?thesis
    by (simp add: ChibiThread_update_frame_def split: option.splits prod.splits)
qed

text \<open>
  C1. For a thread that is not the running one, whose saved \<open>lr\<close> resolves to
  \<open>_port_switch_from_isr\<close> and whose stack can be read: with \<open>sp\<close> the reconstructed
  stack pointer and \<open>w j\<close> the little-endian 32-bit word at \<open>sp + 4 j\<close>, the registers
  after \<open>_update\<close> are r0..r3 = w 0..w 3, r12 = w 4, r14 = w 5, r15 = w 6, xpsr = w 7 and
  r13 = sp + 0x68; r4 to r11 keep the values from the saved context and the entries after
  xpsr keep those of the register cache.
\<close>

theorem exception_frame_unwind:
  assumes "thread_at g (tp t) = Some th" and "cur \<noteq> Some (tp t)"
    and "intctx_at g (p_ctx_r13 th) = Some ctx" and "17 \<le> length rc"
    and "sp = ulong (p_ctx_r13 th + intctx_size g)"
    and "block_for_pc g (ulong (ctx_lr ctx)) = Some b"
    and "find_function b = Some (fb, ''_port_switch_from_isr'')"
    and "\<forall>k < 32. memory g (sp + int k) = Some (m k)"
    and "w = (\<lambda>j. uint (m (4 * j)) + 256 * uint (m (4 * j + 1)) + 65536 * uint (m (4 * j + 2))
                   + 16777216 * uint (m (4 * j + 3)))"
    and "rs = regs (fst (ChibiThread_update g rc cur t))"
  shows "length rs = length rc
     \<and> rs ! 0 = w 0 \<and> rs ! 1 = w 1 \<and> rs ! 2 = w 2 \<and> rs ! 3 = w 3
     \<and> rs ! 12 = w 4 \<and> rs ! 14 = w 5 \<and> rs ! 15 = w 6 \<and> rs ! 16 = w 7
     \<and> rs ! 13 = sp + 0x68
     \<and> (\<forall>i. 4 \<le> i \<and> i < 12 \<longrightarrow> rs ! i = ulong (ctx_r ctx i))
     \<and> (\<forall>i. 17 \<le> i \<and> i < length rc \<longrightarrow> rs ! i = rc ! i)"
proof -
  define R where "R = rc[13 := sp, 15 := ulong (ctx_lr ctx),
            4 := ulong (ctx_r ctx 4), 5 := ulong (ctx_r ctx 5), 6 := ulong (ctx_r ctx 6),
            7 := ulong (ctx_r ctx 7), 8 := ulong (ctx_r ctx 8), 9 := ulong (ctx_r ctx 9),
            10 := ulong (ctx_r ctx 10), 11 := ulong (ctx_r ctx 11)]"
  define t2 where "t2 = t\<lparr>name := p_name th, active := False, regs := R\<rparr>"
  define t3 where "t3 = t2\<lparr>block := Some fb,
     frame_str := ''0x'' @ format_X (ulong (ctx_lr ctx)) @ '' in '' @ ''_port_switch_from_isr'' @ '' ()''\<rparr>"
  have lenR: "length R = length rc"
    by (simp add: R_def)
  have u: "update_saved_context g (p_ctx_r13 th) (t\<lparr>name := p_name th, regs := rc, active := False\<rparr>)
      = (t2, None)"
    using update_saved_context_ok [OF assms(3), of "t\<lparr>name := p_name th, regs := rc, active := False\<rparr>"]
      assms(4) by (simp add: t2_def R_def assms(5))
  have r15: "regs t2 ! 15 = ulong (ctx_lr ctx)"
    using assms(4) by (simp add: t2_def R_def)
  have l: "15 < length (regs t2)"
    using assms(4) by (simp add: t2_def lenR)
  have f: "ChibiThread_update_frame g t2 = (t3, None)"
    using l assms(6,7) by (simp add: ChibiThread_update_frame_def r15 t3_def)
  have bf: "map_option block_function (block t3) = Some (Some ''_port_switch_from_isr'')"
    using find_function_Some [OF assms(7)] by (simp add: t3_def)
  have whole: "ChibiThread_update g rc cur t = update_unwind g t3"
    using assms(1,2) bf by (simp add: ChibiThread_update_def Let_def u f)
  have r3: "regs t3 = R"
    by (simp add: t3_def t2_def)
  have sp3: "regs t3 ! 13 = sp"
    using assms(4) by (simp add: r3 R_def)
  have mem: "\<forall>k < 32. memory g (regs t3 ! 13 + int k) = Some (m k)"
    unfolding sp3 by (rule assms(8))
  have len3: "17 \<le> length (regs t3)"
    using assms(4) by (simp add: r3 lenR)
  have rs: "rs = (take 4 (map w [0..<8]) @ drop 4 R)
         [12 := w 4, 14 := w 5, 15 := w 6, 16 := w 7, 13 := sp + 0x68]"
    unfolding assms(10) whole update_unwind_regs [OF mem len3 assms(9)] r3 sp3 [unfolded r3]
    by (rule refl)
  have "[0..<8] = [0, 1, 2, 3, 4, 5, 6, 7 :: nat]"
    by code_simp
  then have t4: "take 4 (map w [0..<8]) = [w 0, w 1, w 2, w 3]"
    by simp
  have c1: "length rs = length rc"
    using assms(4) by (simp add: rs t4 lenR)
  have c2: "rs ! 0 = w 0 \<and> rs ! 1 = w 1 \<and> rs ! 2 = w 2 \<and> rs ! 3 = w 3"
    using assms(4) by (simp add: rs t4 lenR)
  have c3: "rs ! 12 = w 4 \<and> rs ! 14 = w 5 \<and> rs ! 15 = w 6 \<and> rs ! 16 = w 7 \<and> rs ! 13 = sp + 0x68"
    using assms(4) by (simp add: rs t4 lenR)
  have c4: "\<forall>i. 4 \<le> i \<and> i < 12 \<longrightarrow> rs ! i = ulong (ctx_r ctx i)"
  proof (intro allI impI)
    fix i :: nat assume "4 \<le> i \<and> i < 12"
    then have "i \<in> {4, 5, 6, 7, 8, 9, 10, 11}" by auto
    then show "rs ! i = ulong (ctx_r ctx i)"
      using assms(4) by (auto simp add: rs t4 lenR R_def nth_append)
  qed
  have c5: "\<forall>i. 17 \<le> i \<and> i < length rc \<longrightarrow> rs ! i = rc ! i"
    by (auto simp add: rs t4 lenR R_def nth_append)
  from c1 c2 c3 c4 c5 show ?thesis by blast
qed

lemma demo_worker_facts:
  "thread_at demo_target 0x20000C00
     = Some \<lparr>p_name = ''worker'', p_newer = 0x20000100, p_ctx_r13 = 0x20002000\<rparr>"
  "intctx_at demo_target 0x20002000 = Some \<lparr>ctx_lr = 0x08000500, ctx_r = (\<lambda>i. 0x200 + int i)\<rparr>"
  "block_for_pc demo_target 0x08000500 = Some (Block (Some ''_port_switch_from_isr'') (Some file_block))"
  "k < 32 \<Longrightarrow> memory demo_target (0x20002024 + int k) = Some (frame_bytes ! k)"
  by (simp_all add: demo_target_def demo_thread_at_def demo_intctx_at_def demo_block_for_pc_def
      demo_memory_def)

theorem exception_frame_unwind_witness:
  "length (regs (fst (ChibiThread_update demo_target thread_regs (Some 0x20000400)
                        (fresh_thread 0x20000C00)))) = 19
   \<and> map (\<lambda>i. regs (fst (ChibiThread_update demo_target thread_regs (Some 0x20000400)
                            (fresh_thread 0x20000C00))) ! i) [0, 1, 2, 3, 12, 14, 15, 16]
       = [0x11, 0x22, 0x33, 0x44, 0xCC, 0x08000601, 0x08000600, 0x01000000]
   \<and> regs (fst (ChibiThread_update demo_target thread_regs (Some 0x20000400)
                  (fresh_thread 0x20000C00))) ! 13 = 0x20002024 + 0x68
   \<and> regs (fst (ChibiThread_update demo_target thread_regs (Some 0x20000400)
                  (fresh_thread 0x20000C00))) ! 4 = 0x204
   \<and> regs (fst (ChibiThread_update demo_target thread_regs (Some 0x20000400)
                  (fresh_thread 0x20000C00))) ! 18 = 0"
proof -
  let ?th = "\<lparr>p_name = ''worker'', p_newer = 0x20000100, p_ctx_r13 = 0x20002000\<rparr>"
  let ?ctx = "\<lparr>ctx_lr = 0x08000500, ctx_r = (\<lambda>i. 0x200 + int i)\<rparr>"
  let ?b = "Block (Some ''_port_switch_from_isr'') (Some file_block)"
  let ?w = "\<lambda>j. uint (frame_bytes ! (4 * j)) + 256 * uint (frame_bytes ! (4 * j + 1))
              + 65536 * uint (frame_bytes ! (4 * j + 2)) + 16777216 * uint (frame_bytes ! (4 * j + 3))"
  let ?rs = "regs (fst (ChibiThread_update demo_target thread_regs (Some 0x20000400)
                        (fresh_thread 0x20000C00)))"
  have h1: "thread_at demo_target (tp (fresh_thread 0x20000C00)) = Some ?th"
    by (simp add: demo_worker_facts fresh_thread_def)
  have h2: "Some (0x20000400 :: int) \<noteq> Some (tp (fresh_thread 0x20000C00))"
    by (simp add: fresh_thread_def)
  have h3: "intctx_at demo_target (p_ctx_r13 ?th) = Some ?ctx"
    by (simp add: demo_worker_facts)
  have h4: "17 \<le> length thread_regs"
    by (simp add: thread_regs_facts)
  have h5: "(0x20002024 :: int) = ulong (p_ctx_r13 ?th + intctx_size demo_target)"
    by (simp add: ulong_def demo_sleeper_facts)
  have h6: "block_for_pc demo_target (ulong (ctx_lr ?ctx)) = Some ?b"
    by (simp add: ulong_def demo_worker_facts)
  have h7: "find_function ?b = Some (?b, ''_port_switch_from_isr'')"
    by simp
  have h8: "\<forall>k < 32. memory demo_target (0x20002024 + int k) = Some (frame_bytes ! k)"
    by (simp add: demo_worker_facts)
  note unw = exception_frame_unwind [OF h1 h2 h3 h4 h5 h6 h7 h8 refl refl]
  have w: "?w 0 = 0x11" "?w 1 = 0x22" "?w 2 = 0x33" "?w 3 = 0x44" "?w 4 = 0xCC"
    "?w 5 = 0x08000601" "?w 6 = 0x08000600" "?w 7 = 0x01000000"
    by (simp_all add: frame_bytes_def)
  have c: "ulong (ctx_r ?ctx 4) = 0x204"
    by (simp add: ulong_def)
  have "?rs ! 4 = ulong (ctx_r ?ctx 4)"
    using unw by simp
  moreover have "?rs ! 18 = thread_regs ! 18"
    using unw by (simp add: thread_regs_facts)
  moreover have "thread_regs ! 18 = 0"
    by (simp add: thread_regs_def)
  ultimately show ?thesis
    using unw unfolding w c by (simp add: thread_regs_facts)
qed

section \<open>Thread selection\<close>







section \<open>The task registry\<close>

lemma update_frame_keeps:
  "tp (fst (ChibiThread_update_frame g t)) = tp t"
  "lwp (fst (ChibiThread_update_frame g t)) = lwp t"
  "regs (fst (ChibiThread_update_frame g t)) = regs t"
  by (simp_all add: ChibiThread_update_frame_def split: option.splits prod.splits)

lemma update_saved_context_keeps:
  "tp (fst (update_saved_context g r t)) = tp t"
  "lwp (fst (update_saved_context g r t)) = lwp t"
  "length (regs (fst (update_saved_context g r t))) = length (regs t)"
  by (simp_all add: update_saved_context_def Let_def upt_conv_Cons split: option.splits)

lemma length_unpack_words: "length (unpack_words n bs) = n"
  by (induction n arbitrary: bs) simp_all

lemma update_unwind_keeps:
  "tp (fst (update_unwind g t)) = tp t"
  "lwp (fst (update_unwind g t)) = lwp t"
  "4 \<le> length (regs t) \<Longrightarrow> length (regs (fst (update_unwind g t))) = length (regs t)"
  by (simp_all add: update_unwind_def unpack_L_def Let_def update_frame_keeps length_unpack_words
      split: option.splits sum.splits)

lemma ChibiThread_update_keeps:
  "tp (fst (ChibiThread_update g rc cur t)) = tp t"
  "lwp (fst (ChibiThread_update g rc cur t)) = lwp t"
proof -
  have "tp (fst (ChibiThread_update g rc cur t)) = tp t \<and> lwp (fst (ChibiThread_update g rc cur t)) = lwp t"
  proof (cases "thread_at g (tp t)")
    case None
    then show ?thesis by (simp add: ChibiThread_update_def)
  next
    case (Some th)
    let ?t1 = "t\<lparr>name := p_name th, regs := rc\<rparr>"
    show ?thesis
    proof (cases "cur = Some (tp t)")
      case True
      then show ?thesis
        using Some by (simp add: ChibiThread_update_def Let_def update_frame_keeps)
    next
      case False
      obtain t2 e2 where u: "update_saved_context g (p_ctx_r13 th) (?t1\<lparr>active := False\<rparr>) = (t2, e2)"
        by (cases "update_saved_context g (p_ctx_r13 th) (?t1\<lparr>active := False\<rparr>)")
      have k2: "tp t2 = tp t" "lwp t2 = lwp t"
        using update_saved_context_keeps(1,2) [of g "p_ctx_r13 th" "?t1\<lparr>active := False\<rparr>"] u
        by simp_all
      obtain t3 e3 where f: "ChibiThread_update_frame g t2 = (t3, e3)"
        by (cases "ChibiThread_update_frame g t2")
      have k3: "tp t3 = tp t" "lwp t3 = lwp t"
        using update_frame_keeps(1,2) [of g t2] f k2 by simp_all
      have k4: "tp (fst (update_unwind g t3)) = tp t" "lwp (fst (update_unwind g t3)) = lwp t"
        using update_unwind_keeps(1,2) [of g t3] k3 by simp_all
      show ?thesis
        using Some False u f k2 k3 k4
        by (simp add: ChibiThread_update_def Let_def split: option.splits)
    qed
  qed
  then show "tp (fst (ChibiThread_update g rc cur t)) = tp t"
    "lwp (fst (ChibiThread_update g rc cur t)) = lwp t"
    by simp_all
qed

lemma ChibiThread_update_length:
  "length (regs (fst (ChibiThread_update g rc cur t))) = length (regs t)
   \<or> length (regs (fst (ChibiThread_update g rc cur t))) = length rc"
proof (cases "thread_at g (tp t)")
  case None
  then show ?thesis by (simp add: ChibiThread_update_def)
next
  case (Some th)
  let ?t1 = "t\<lparr>name := p_name th, regs := rc\<rparr>"
  have "length (regs (fst (ChibiThread_update g rc cur t))) = length rc"
  proof (cases "cur = Some (tp t)")
    case True
    then show ?thesis
      using Some by (simp add: ChibiThread_update_def Let_def update_frame_keeps)
  next
    case False
    obtain t2 e2 where u: "update_saved_context g (p_ctx_r13 th) (?t1\<lparr>active := False\<rparr>) = (t2, e2)"
      by (cases "update_saved_context g (p_ctx_r13 th) (?t1\<lparr>active := False\<rparr>)")
    have k2: "length (regs t2) = length rc"
      using update_saved_context_keeps(3) [of g "p_ctx_r13 th" "?t1\<lparr>active := False\<rparr>"] u
      by simp
    obtain t3 e3 where f: "ChibiThread_update_frame g t2 = (t3, e3)"
      by (cases "ChibiThread_update_frame g t2")
    have k3: "regs t3 = regs t2"
      using update_frame_keeps(3) [of g t2] f by simp
    have big: "e3 = None \<Longrightarrow> 4 \<le> length (regs t3)"
      using f k3 by (auto simp add: ChibiThread_update_frame_def split: if_splits)
    have k4: "e3 = None \<Longrightarrow> length (regs (fst (update_unwind g t3))) = length rc"
      using update_unwind_keeps(3) [of t3 g] big k3 k2 by simp
    show ?thesis
      using Some False u f k2 k3 k4
      by (cases e2; cases e3) (simp_all add: ChibiThread_update_def Let_def)
  qed
  then show ?thesis by simp
qed

lemma ChibiThread_update_ok_length:
  "ChibiThread_update g rc cur t = (t', None) \<Longrightarrow> length (regs t') = length rc"
proof -
  assume a: "ChibiThread_update g rc cur t = (t', None)"
  show ?thesis
  proof (cases "thread_at g (tp t)")
    case None
    then show ?thesis using a by (simp add: ChibiThread_update_def)
  next
    case (Some th)
    let ?t1 = "t\<lparr>name := p_name th, regs := rc\<rparr>"
    show ?thesis
    proof (cases "cur = Some (tp t)")
      case True
      then have "t' = fst (ChibiThread_update_frame g (?t1\<lparr>active := True\<rparr>))"
        using Some a by (simp add: ChibiThread_update_def Let_def)
      then show ?thesis by (simp add: update_frame_keeps)
    next
      case False
      obtain t2 e2 where u: "update_saved_context g (p_ctx_r13 th) (?t1\<lparr>active := False\<rparr>) = (t2, e2)"
        by (cases "update_saved_context g (p_ctx_r13 th) (?t1\<lparr>active := False\<rparr>)")
      have k2: "length (regs t2) = length rc"
        using update_saved_context_keeps(3) [of g "p_ctx_r13 th" "?t1\<lparr>active := False\<rparr>"] u
        by simp
      obtain t3 e3 where f: "ChibiThread_update_frame g t2 = (t3, e3)"
        by (cases "ChibiThread_update_frame g t2")
      have k3: "regs t3 = regs t2"
        using update_frame_keeps(3) [of g t2] f by simp
      have big: "e3 = None \<Longrightarrow> 4 \<le> length (regs t3)"
        using f k3 by (auto simp add: ChibiThread_update_frame_def split: if_splits)
      have k4: "e3 = None \<Longrightarrow> length (regs (fst (update_unwind g t3))) = length rc"
        using update_unwind_keeps(3) [of t3 g] big k3 k2 by simp
      have "t' = t3 \<or> t' = fst (update_unwind g t3)" "e2 = None" "e3 = None"
        using Some False u f a
        by (cases e2; cases e3; simp add: ChibiThread_update_def Let_def split: if_splits)+
      then show ?thesis using k2 k3 k4 by auto
    qed
  qed
qed

lemma ChibiThread_update_keeps_pair:
  "ChibiThread_update g rc cur t = (t', e) \<Longrightarrow> tp t' = tp t \<and> lwp t' = lwp t"
  using ChibiThread_update_keeps [of g rc cur t] by simp

lemma update_all_keeps:
  "map tp (fst (update_all g rc cur ts)) = map tp ts"
  "map lwp (fst (update_all g rc cur ts)) = map lwp ts"
  by (induction ts)
     (auto dest: ChibiThread_update_keeps_pair split: prod.splits option.splits)

lemma update_all_length:
  "\<forall>t \<in> set ts. length (regs t) = length rc \<Longrightarrow>
   \<forall>t \<in> set (fst (update_all g rc cur ts)). length (regs t) = length rc"
proof (induction ts)
  case Nil
  then show ?case by simp
next
  case (Cons t ts)
  obtain t' e where u: "ChibiThread_update g rc cur t = (t', e)"
    by (cases "ChibiThread_update g rc cur t")
  have l: "length (regs t') = length rc"
    using ChibiThread_update_length [of g rc cur t] u Cons.prems by auto
  show ?case
    using Cons u l by (cases e) (auto split: prod.splits)
qed

lemma update_all_length_19:
  "\<forall>t \<in> set ts. length (regs t) = 19 \<Longrightarrow> length rc = 19 \<Longrightarrow>
   \<forall>t \<in> set (fst (update_all g rc cur ts)). length (regs t) = 19"
  using update_all_length [of ts rc g cur] by simp

lemma ChibiThread_init_Inr:
  "ChibiThread_init g rc cur n a = (Inr ct, n') \<Longrightarrow>
   tp ct = a \<and> lwp ct = n \<and> n' = n + 1 \<and> length (regs ct) = length rc"
proof -
  assume a: "ChibiThread_init g rc cur n a = (Inr ct, n')"
  then obtain th where th: "thread_at g a = Some th"
    by (cases "thread_at g a") (simp_all add: ChibiThread_init_def)
  let ?t0 = "\<lparr>tp = a, name = p_name th, lwp = n, regs = [], active = False,
                   block = None, frame_str = []\<rparr>"
  have u: "ChibiThread_update g rc cur ?t0 = (ct, None)" and n': "n' = n + 1"
    using a th by (auto simp add: ChibiThread_init_def split: prod.splits option.splits)
  have "tp ct = a" "lwp ct = n"
    using ChibiThread_update_keeps [of g rc cur ?t0] u by simp_all
  moreover have "length (regs ct) = length rc"
    using u by (rule ChibiThread_update_ok_length)
  ultimately show ?thesis using n' by simp
qed

lemma ChibiThread_init_Inl:
  "ChibiThread_init g rc cur n a = (Inl e, n') \<Longrightarrow> n \<le> n'"
  by (auto simp add: ChibiThread_init_def split: prod.splits option.splits)

lemma length_get_gprs:
  "get_gprs g js rs = Inr rs' \<Longrightarrow> length rs' = length rs"
  by (induction js arbitrary: rs) (auto split: option.splits)

lemma length_get_cpu_regs:
  "get_cpu_regs g = Inr rc \<Longrightarrow> length rc = 19"
  by (auto simp add: get_cpu_regs_def split: if_splits sum.splits option.splits
      dest: length_get_gprs)

lemma gdb_set_keeps:
  "thread_cache (fst (gdb_set g r v s)) = thread_cache s"
  "announced (fst (gdb_set g r v s)) = announced s"
  "next_lwp (fst (gdb_set g r v s)) = next_lwp s"
  by (simp_all add: gdb_set_def)

lemma set_gprs_keeps:
  "thread_cache (fst (set_gprs g rs js s)) = thread_cache s
   \<and> announced (fst (set_gprs g rs js s)) = announced s
   \<and> next_lwp (fst (set_gprs g rs js s)) = next_lwp s"
  by (induction js arbitrary: s) (simp_all add: gdb_set_def)

lemma set_cpu_regs_keeps:
  "thread_cache (fst (set_cpu_regs g rs s)) = thread_cache s"
  "announced (fst (set_cpu_regs g rs s)) = announced s"
  "next_lwp (fst (set_cpu_regs g rs s)) = next_lwp s"
proof -
  obtain s1 e1 where g1: "set_gprs g rs [0..<16] s = (s1, e1)"
    by (cases "set_gprs g rs [0..<16] s")
  have k1: "thread_cache s1 = thread_cache s" "announced s1 = announced s" "next_lwp s1 = next_lwp s"
    using set_gprs_keeps [of g rs "[0..<16]" s] g1 by simp_all
  have "thread_cache (fst (set_cpu_regs g rs s)) = thread_cache s
      \<and> announced (fst (set_cpu_regs g rs s)) = announced s
      \<and> next_lwp (fst (set_cpu_regs g rs s)) = next_lwp s"
    using k1 by (cases e1) (simp_all add: set_cpu_regs_def g1 set_xpsr_def gdb_set_def Let_def)
  then show "thread_cache (fst (set_cpu_regs g rs s)) = thread_cache s"
    "announced (fst (set_cpu_regs g rs s)) = announced s"
    "next_lwp (fst (set_cpu_regs g rs s)) = next_lwp s"
    by simp_all
qed

lemma ring_chain_snoc:
  assumes "ring_chain g first L" and "L \<noteq> []" and "ring_next g first (last L) = Some a"
  shows "ring_chain g first (L @ [a])"
  unfolding ring_chain_def
proof (intro allI impI)
  fix i assume i: "Suc i < length (L @ [a])"
  show "ring_next g first ((L @ [a]) ! i) = Some ((L @ [a]) ! Suc i)"
  proof (cases "Suc i < length L")
    case True
    then show ?thesis
      using assms(1) by (simp add: ring_chain_def nth_append)
  next
    case False
    then have e: "Suc i = length L" using i by simp
    then have "i = length L - 1" by simp
    then have "(L @ [a]) ! i = last L"
      using assms(2) e by (simp add: nth_append last_conv_nth)
    moreover have "(L @ [a]) ! Suc i = a"
      using e by (simp add: nth_append)
    ultimately show ?thesis using assms(3) by simp
  qed
qed

lemma walk_ring_chain:
  "walk_ring g n first rest = Some (Inr L) \<Longrightarrow> ring_chain g first (first # rest) \<Longrightarrow>
   ring_chain g first L \<and> ring_next g first (last L) = None \<and> (\<exists>ext. L = first # rest @ ext)"
proof (induction n arbitrary: rest)
  case 0
  then show ?case by simp
next
  case (Suc n)
  obtain th where th: "thread_at g (last (first # rest)) = Some th"
    using Suc.prems(1) by (cases "thread_at g (last (first # rest))") simp_all
  show ?case
  proof (cases "p_newer th = first")
    case True
    then have "L = first # rest"
      using Suc.prems(1) th by (simp add: Let_def)
    moreover have "ring_next g first (last (first # rest)) = None"
      using th True by (simp add: ring_next_def)
    ultimately show ?thesis using Suc.prems(2) by simp
  next
    case False
    obtain th' where th': "thread_at g (p_newer th) = Some th'"
      using Suc.prems(1) th False by (cases "thread_at g (p_newer th)") (simp_all add: Let_def)
    show ?thesis
    proof (cases "p_ctx_r13 th' = 0")
      case True
      then have "L = first # rest"
        using Suc.prems(1) th th' False by (simp add: Let_def)
      moreover have "ring_next g first (last (first # rest)) = None"
        using th th' False True by (simp add: ring_next_def)
      ultimately show ?thesis using Suc.prems(2) by simp
    next
      case nz: False
      have w: "walk_ring g n first (rest @ [p_newer th]) = Some (Inr L)"
        using Suc.prems(1) th th' False nz by (simp add: Let_def)
      have nx: "ring_next g first (last (first # rest)) = Some (p_newer th)"
        using th th' False nz by (simp add: ring_next_def)
      have "ring_chain g first ((first # rest) @ [p_newer th])"
        using Suc.prems(2) nx by (intro ring_chain_snoc) simp_all
      then have "ring_chain g first (first # rest @ [p_newer th])" by simp
      from Suc.IH [OF w this] show ?thesis by auto
    qed
  qed
qed

lemma ring_chain_shift:
  assumes "ring_chain g first L" and "L ! i = L ! j"
  shows "j + d < length L \<Longrightarrow> i < j \<Longrightarrow> L ! (i + d) = L ! (j + d)"
proof (induction d)
  case 0
  then show ?case using assms(2) by simp
next
  case (Suc d)
  have eq: "L ! (i + d) = L ! (j + d)"
    using Suc by simp
  have "ring_next g first (L ! (i + d)) = Some (L ! Suc (i + d))"
    using assms(1) Suc.prems by (simp add: ring_chain_def)
  moreover have "ring_next g first (L ! (j + d)) = Some (L ! Suc (j + d))"
    using assms(1) Suc.prems by (simp add: ring_chain_def)
  ultimately show ?case using eq by simp
qed

lemma ring_chain_distinct:
  assumes "ring_chain g first L" and "L \<noteq> []" and "ring_next g first (last L) = None"
  shows "distinct L"
  unfolding distinct_conv_nth
proof (intro allI impI)
  fix i j assume i: "i < length L" and j: "j < length L" and ne: "i \<noteq> j"
  have no: "L ! a \<noteq> L ! b" if ab: "a < b" and b: "b < length L" for a b
  proof
    assume eq: "L ! a = L ! b"
    define d where "d = length L - 1 - b"
    have bd: "b + d = length L - 1" using b by (simp add: d_def)
    then have "b + d < length L" using b by simp
    then have "L ! (a + d) = L ! (b + d)"
      using ring_chain_shift [OF assms(1) eq] ab by simp
    then have "L ! (a + d) = last L"
      using bd assms(2) by (simp add: last_conv_nth)
    moreover have "Suc (a + d) < length L"
      using ab bd b by simp
    then have "ring_next g first (L ! (a + d)) = Some (L ! Suc (a + d))"
      using assms(1) by (simp add: ring_chain_def)
    ultimately show False using assms(3) by simp
  qed
  show "L ! i \<noteq> L ! j"
  proof (cases "i < j")
    case True
    then show ?thesis using no j by simp
  next
    case False
    then have "j < i" using ne by simp
    then have "L ! j \<noteq> L ! i" using no i by simp
    then show ?thesis by simp
  qed
qed

lemma ring_next_Some:
  "ring_next g first l = Some a \<Longrightarrow>
   a \<noteq> first \<and> (\<exists>th. thread_at g a = Some th \<and> p_ctx_r13 th \<noteq> 0)"
  by (auto simp add: ring_next_def split: option.splits if_splits)

lemma ring_chain_tail:
  assumes "ring_chain g first L" and "a \<in> set (tl L)"
  shows "a \<noteq> first \<and> (\<exists>th. thread_at g a = Some th \<and> p_ctx_r13 th \<noteq> 0)"
proof -
  obtain k where k: "k < length (tl L)" "tl L ! k = a"
    using assms(2) by (auto simp add: in_set_conv_nth)
  then have "Suc k < length L" by simp
  then have "ring_next g first (L ! k) = Some (L ! Suc k)"
    using assms(1) by (simp add: ring_chain_def)
  moreover have "L ! Suc k = a"
    using k by (simp add: nth_tl)
  ultimately show ?thesis using ring_next_Some by metis
qed

lemma walk_ring_result:
  assumes "walk_ring g n first [] = Some (Inr L)"
  shows "distinct L \<and> hd L = first \<and> L \<noteq> []
     \<and> (\<forall>a \<in> set (tl L). a \<noteq> first \<and> (\<exists>th. thread_at g a = Some th \<and> p_ctx_r13 th \<noteq> 0))
     \<and> ring_next g first (last L) = None"
proof -
  have c0: "ring_chain g first (first # [])"
    by (simp add: ring_chain_def)
  from walk_ring_chain [OF assms c0]
  have c: "ring_chain g first L" and e: "ring_next g first (last L) = None"
    and s: "\<exists>ext. L = first # [] @ ext"
    by simp_all
  have ne: "L \<noteq> []" and h: "hd L = first" using s by auto
  have "distinct L" using c ne e by (rule ring_chain_distinct)
  moreover have "\<forall>a \<in> set (tl L). a \<noteq> first \<and> (\<exists>th. thread_at g a = Some th \<and> p_ctx_r13 th \<noteq> 0)"
    using ring_chain_tail [OF c] by blast
  ultimately show ?thesis using ne h e by simp
qed

lemma walk_ring_fuel:
  "walk_ring g n first rest = Some r \<Longrightarrow> walk_ring g (n + k) first rest = Some r"
proof (induction n arbitrary: rest)
  case 0
  then show ?case by simp
next
  case (Suc n)
  show ?case
  proof (cases "thread_at g (last (first # rest))")
    case None
    then show ?thesis using Suc.prems by simp
  next
    case (Some th)
    show ?thesis
    proof (cases "p_newer th = first")
      case True
      then show ?thesis using Suc.prems Some by (simp add: Let_def)
    next
      case False
      show ?thesis
      proof (cases "thread_at g (p_newer th)")
        case None
        then show ?thesis using Suc.prems Some False by (simp add: Let_def)
      next
        case th': (Some th')
        show ?thesis
        proof (cases "p_ctx_r13 th' = 0")
          case True
          then show ?thesis using Suc.prems Some False th' by (simp add: Let_def)
        next
          case nz: False
          have "walk_ring g n first (rest @ [p_newer th]) = Some r"
            using Suc.prems Some False th' nz by (simp add: Let_def)
          then have "walk_ring g (n + k) first (rest @ [p_newer th]) = Some r"
            by (rule Suc.IH)
          then show ?thesis using Some False th' nz by (simp add: Let_def)
        qed
      qed
    qed
  qed
qed

lemma announce_new_shape:
  "announce_new g old as s = (s', e) \<Longrightarrow>
   \<exists>new. thread_cache s' = thread_cache s @ new
     \<and> announced s' = announced s @ map (\<lambda>t. (tp t, lwp t)) new
     \<and> set (map tp new) \<subseteq> set as - set old
     \<and> (distinct as \<longrightarrow> distinct (map tp new))
     \<and> sorted_wrt (<) (map lwp new)
     \<and> (\<forall>t \<in> set new. next_lwp s \<le> lwp t \<and> lwp t < next_lwp s')
     \<and> next_lwp s \<le> next_lwp s'
     \<and> (\<forall>t \<in> set new. length (regs t) = length (reg_cache s))
     \<and> reg_cache s' = reg_cache s"
proof (induction as arbitrary: s)
  case Nil
  then show ?case by (intro exI [of _ "[]"]) auto
next
  case (Cons a as)
  show ?case
  proof (cases "a \<in> set old")
    case True
    then have "announce_new g old as s = (s', e)"
      using Cons.prems by simp
    from Cons.IH [OF this] obtain new where n: "thread_cache s' = thread_cache s @ new"
      "announced s' = announced s @ map (\<lambda>t. (tp t, lwp t)) new"
      "set (map tp new) \<subseteq> set as - set old" "distinct as \<longrightarrow> distinct (map tp new)"
      "sorted_wrt (<) (map lwp new)" "\<forall>t \<in> set new. next_lwp s \<le> lwp t \<and> lwp t < next_lwp s'"
      "next_lwp s \<le> next_lwp s'" "\<forall>t \<in> set new. length (regs t) = length (reg_cache s)"
      "reg_cache s' = reg_cache s"
      by blast
    have "set (map tp new) \<subseteq> set (a # as) - set old" using n(3) by auto
    moreover have "distinct (a # as) \<longrightarrow> distinct (map tp new)" using n(4) by simp
    ultimately show ?thesis using n(1,2,5,6,7,8,9) by blast
  next
    case False
    obtain r n where i: "ChibiThread_init g (reg_cache s) (currp s) (next_lwp s) a = (r, n)"
      by (cases "ChibiThread_init g (reg_cache s) (currp s) (next_lwp s) a")
    show ?thesis
    proof (cases r)
      case (Inl e0)
      then have s': "s' = s\<lparr>next_lwp := n\<rparr>"
        using Cons.prems False i by simp
      have "next_lwp s \<le> n"
        using i Inl ChibiThread_init_Inl by blast
      then show ?thesis
        using s' by (intro exI [of _ "[]"]) simp
    next
      case (Inr ct)
      have ct: "tp ct = a" "lwp ct = next_lwp s" "n = next_lwp s + 1"
        "length (regs ct) = length (reg_cache s)"
        using ChibiThread_init_Inr [of g "reg_cache s" "currp s" "next_lwp s" a ct n] i Inr
        by simp_all
      let ?s1 = "s\<lparr>next_lwp := n, thread_cache := thread_cache s @ [ct],
                    printed := printed s @ [''[New thread '' @ [CHR 0x27] @ name ct @ [CHR 0x27] @ '']''],
                    announced := announced s @ [(tp ct, lwp ct)]\<rparr>"
      have "announce_new g old as ?s1 = (s', e)"
        using Cons.prems False i Inr by simp
      from Cons.IH [OF this] obtain new where n: "thread_cache s' = thread_cache ?s1 @ new"
        "announced s' = announced ?s1 @ map (\<lambda>t. (tp t, lwp t)) new"
        "set (map tp new) \<subseteq> set as - set old" "distinct as \<longrightarrow> distinct (map tp new)"
        "sorted_wrt (<) (map lwp new)" "\<forall>t \<in> set new. next_lwp ?s1 \<le> lwp t \<and> lwp t < next_lwp s'"
        "next_lwp ?s1 \<le> next_lwp s'" "\<forall>t \<in> set new. length (regs t) = length (reg_cache ?s1)"
        "reg_cache s' = reg_cache ?s1"
        by blast
      have 1: "thread_cache s' = thread_cache s @ (ct # new)"
        using n(1) by simp
      have 2: "announced s' = announced s @ map (\<lambda>t. (tp t, lwp t)) (ct # new)"
        using n(2) by simp
      have 3: "set (map tp (ct # new)) \<subseteq> set (a # as) - set old"
        using n(3) ct(1) False by auto
      have 4: "distinct (a # as) \<longrightarrow> distinct (map tp (ct # new))"
        using n(3,4) ct(1) by auto
      have 5: "sorted_wrt (<) (map lwp (ct # new))"
        using n(5,6) ct(2,3) by auto
      have 6: "\<forall>t \<in> set (ct # new). next_lwp s \<le> lwp t \<and> lwp t < next_lwp s'"
        using n(6,7) ct(2,3) by auto
      have 7: "next_lwp s \<le> next_lwp s'"
        using n(7) ct(3) by simp
      have 8: "\<forall>t \<in> set (ct # new). length (regs t) = length (reg_cache s)"
        using n(8) ct(4) by simp
      have 9: "reg_cache s' = reg_cache s"
        using n(9) by simp
      from 1 2 3 4 5 6 7 8 9 show ?thesis by blast
    qed
  qed
qed

lemma stop_handler_summary:
  assumes "stop_handler n g s = Some (s', e)"
  shows "(currp_val g = None \<and> thread_cache s' = [] \<and> announced s' = announced s
          \<and> next_lwp s' = next_lwp s)
     \<or> (\<exists>ts new. thread_cache s' = ts @ new
          \<and> map tp ts = map tp (thread_cache s) \<and> map lwp ts = map lwp (thread_cache s)
          \<and> ((\<forall>t \<in> set (thread_cache s). length (regs t) = 19) \<longrightarrow>
               (\<forall>t \<in> set ts. length (regs t) = 19))
          \<and> (\<forall>t \<in> set new. length (regs t) = 19)
          \<and> announced s' = announced s @ map (\<lambda>t. (tp t, lwp t)) new
          \<and> distinct (map tp new) \<and> set (map tp new) \<inter> set (map tp ts) = {}
          \<and> sorted_wrt (<) (map lwp new)
          \<and> (\<forall>t \<in> set new. next_lwp s \<le> lwp t \<and> lwp t < next_lwp s')
          \<and> next_lwp s \<le> next_lwp s'
          \<and> (\<forall>t \<in> set new. rlist_r_newer g = Some (tp t)
                \<or> (\<exists>th. thread_at g (tp t) = Some th \<and> p_ctx_r13 th \<noteq> 0)))"
    (is "?cleared \<or> (\<exists>ts new. ?kept ts new)")
proof -
  have plain: "\<exists>ts new. ?kept ts new"
    if "thread_cache s' = thread_cache s" "announced s' = announced s" "next_lwp s' = next_lwp s"
    using that by (intro exI [of _ "thread_cache s"] exI [of _ "[]"]) simp
  show ?thesis
  proof (cases "get_cpu_regs g")
    case (Inl e0)
    then have "s' = s" using assms by (simp add: stop_handler_def)
    then show ?thesis using plain by simp
  next
    case (Inr rc)
    have len: "length rc = 19" using Inr by (rule length_get_cpu_regs)
    show ?thesis
    proof (cases "currp_val g")
      case None
      then have "s' = s\<lparr>reg_cache := rc, currp := None, thread_cache := []\<rparr>"
        using assms Inr by (simp add: stop_handler_def Let_def)
      then show ?thesis using None by simp
    next
      case (Some c)
      let ?s2 = "s\<lparr>reg_cache := rc, currp := Some c\<rparr>"
      show ?thesis
      proof (cases "rlist_r_newer g")
        case None
        then have "s' = ?s2" using assms Inr Some by (simp add: stop_handler_def Let_def)
        then show ?thesis using plain by simp
      next
        case first: (Some first)
        show ?thesis
        proof (cases "walk_ring g n first []")
          case None
          then show ?thesis using assms Inr Some first by (simp add: stop_handler_def Let_def)
        next
          case w: (Some r)
          show ?thesis
          proof (cases r)
            case (Inl e1)
            then have "s' = ?s2"
              using assms Inr Some first w by (simp add: stop_handler_def Let_def)
            then show ?thesis using plain by simp
          next
            case L: (Inr L)
            obtain ts e2 where u: "update_all g rc (Some c) (thread_cache s) = (ts, e2)"
              by (cases "update_all g rc (Some c) (thread_cache s)")
            have ts: "map tp ts = map tp (thread_cache s)" "map lwp ts = map lwp (thread_cache s)"
              using update_all_keeps [of g rc "Some c" "thread_cache s"] u by simp_all
            have tl: "(\<forall>t \<in> set (thread_cache s). length (regs t) = 19) \<longrightarrow>
               (\<forall>t \<in> set ts. length (regs t) = 19)"
              using update_all_length_19 [of "thread_cache s" rc g "Some c"] u len by simp
            show ?thesis
            proof (cases e2)
              case (Some e2')
              then have s': "s' = ?s2\<lparr>thread_cache := ts\<rparr>"
                using assms Inr \<open>currp_val g = Some c\<close> first w L u
                by (simp add: stop_handler_def Let_def)
              have "?kept ts []"
                using s' ts tl by simp
              then show ?thesis by blast
            next
              case None
              let ?s3 = "?s2\<lparr>thread_cache := ts\<rparr>"
              obtain s4 e4 where a: "announce_new g (map tp ts) L ?s3 = (s4, e4)"
                by (cases "announce_new g (map tp ts) L ?s3")
              from announce_new_shape [OF a] obtain new where
                n: "thread_cache s4 = thread_cache ?s3 @ new"
                "announced s4 = announced ?s3 @ map (\<lambda>t. (tp t, lwp t)) new"
                "set (map tp new) \<subseteq> set L - set (map tp ts)"
                "distinct L \<longrightarrow> distinct (map tp new)"
                "sorted_wrt (<) (map lwp new)"
                "\<forall>t \<in> set new. next_lwp ?s3 \<le> lwp t \<and> lwp t < next_lwp s4"
                "next_lwp ?s3 \<le> next_lwp s4"
                "\<forall>t \<in> set new. length (regs t) = length (reg_cache ?s3)"
                by blast
              have wr: "distinct L" "hd L = first" "L \<noteq> []"
                "\<forall>a \<in> set (tl L). a \<noteq> first \<and> (\<exists>th. thread_at g a = Some th \<and> p_ctx_r13 th \<noteq> 0)"
                using walk_ring_result [of g n first L] w L by simp_all
              have same: "thread_cache s' = thread_cache s4 \<and> announced s' = announced s4
                  \<and> next_lwp s' = next_lwp s4"
              proof (cases e4)
                case (Some e4')
                then have "s' = s4"
                  using assms Inr \<open>currp_val g = Some c\<close> first w L u None a
                  by (simp add: stop_handler_def Let_def)
                then show ?thesis by simp
              next
                case None4: None
                have "s' = fst (set_cpu_regs g (reg_cache s4) s4)"
                  using assms Inr \<open>currp_val g = Some c\<close> first w L u None a None4
                  by (simp add: stop_handler_def Let_def)
                then show ?thesis by (simp add: set_cpu_regs_keeps)
              qed
              have origin: "\<forall>t \<in> set new. rlist_r_newer g = Some (tp t)
                  \<or> (\<exists>th. thread_at g (tp t) = Some th \<and> p_ctx_r13 th \<noteq> 0)"
              proof
                fix t assume "t \<in> set new"
                then have "tp t \<in> set L" using n(3) by auto
                then have "tp t = hd L \<or> tp t \<in> set (tl L)"
                  using wr(3) by (cases L) auto
                then show "rlist_r_newer g = Some (tp t)
                    \<or> (\<exists>th. thread_at g (tp t) = Some th \<and> p_ctx_r13 th \<noteq> 0)"
                  using wr(2,4) first by auto
              qed
              have "?kept ts new"
                using same n(1,2,5,6,7,8) n(3) n(4) wr(1) ts tl len origin by auto
              then show ?thesis by blast
            qed
          qed
        qed
      qed
    qed
  qed
qed


lemma set_cpu_regs_accepting:
  assumes "newest_frame_ok g" and "17 \<le> length rs" and "\<forall>r v. set_ok g r v"
  shows "snd (set_cpu_regs g rs s) = None"
proof -
  have "\<forall>i \<in> set [0..<16]. i < length rs \<and> set_ok g (R i) (rs ! i)"
    using assms(2,3) by auto
  then have gp: "set_gprs g rs [0..<16] s
      = (s\<lparr>writes := writes s @ map (\<lambda>i. (R i, rs ! i)) [0..<16]\<rparr>, None)"
    by (rule set_gprs_accepted)
  show ?thesis
    unfolding set_cpu_regs_def gp
    using assms by (simp add: set_xpsr_def gdb_set_def Let_def del: upt_rec_numeral)
qed

lemma boot_target_facts:
  "newest_frame_ok boot_target" "set_ok boot_target r v"
  "currp_val boot_target = Some 0x20000400" "rlist_r_newer boot_target = Some 0x20000400"
  "thread_at boot_target 0x20000400
     = Some \<lparr>p_name = ''main'', p_newer = 0x20000100, p_ctx_r13 = 0\<rparr>"
  "thread_at boot_target 0x20000100
     = Some \<lparr>p_name = [], p_newer = 0x20000400, p_ctx_r13 = 0\<rparr>"
  "block_for_pc boot_target 0x08000300 = Some main_inner_block"
  by (simp_all add: boot_target_def demo_target_def boot_thread_at_def demo_block_for_pc_def)

lemma boot_get_cpu_regs: "get_cpu_regs boot_target = Inr thread_regs"
  by code_simp

lemma boot_walk_ring: "walk_ring boot_target (Suc k) 0x20000400 [] = Some (Inr [0x20000400])"
  by (simp add: boot_target_facts)

lemma boot_init:
  "\<exists>ct. ChibiThread_init boot_target thread_regs (Some 0x20000400) n 0x20000400 = (Inr ct, n + 1)
     \<and> tp ct = 0x20000400 \<and> lwp ct = n \<and> name ct = ''main'' \<and> regs ct = thread_regs"
  by (simp add: ChibiThread_init_def ChibiThread_update_def ChibiThread_update_frame_def
      boot_target_facts thread_regs_def main_inner_block_def Let_def)

lemma boot_stop_fresh:
  assumes "thread_cache s = []" and "0 < fuel"
  shows "\<exists>s'. stop_handler fuel boot_target s = Some (s', None)
     \<and> map tp (thread_cache s') = [0x20000400]
     \<and> map lwp (thread_cache s') = [next_lwp s]
     \<and> announced s' = announced s @ [(0x20000400, next_lwp s)]
     \<and> next_lwp s' = next_lwp s + 1"
proof -
  obtain k where k: "fuel = Suc k"
    using assms(2) by (cases fuel) simp_all
  obtain ct where ct: "ChibiThread_init boot_target thread_regs (Some 0x20000400) (next_lwp s) 0x20000400
      = (Inr ct, next_lwp s + 1)" "tp ct = 0x20000400" "lwp ct = next_lwp s"
    using boot_init [of "next_lwp s"] by blast
  let ?s4 = "s\<lparr>reg_cache := thread_regs, currp := Some 0x20000400, thread_cache := [],
      next_lwp := next_lwp s + 1, thread_cache := [ct],
      printed := printed s @ [''[New thread '' @ [CHR 0x27] @ name ct @ [CHR 0x27] @ '']''],
      announced := announced s @ [(tp ct, lwp ct)]\<rparr>"
  obtain s5 e5 where r: "set_cpu_regs boot_target thread_regs ?s4 = (s5, e5)"
    by (cases "set_cpu_regs boot_target thread_regs ?s4")
  have "snd (set_cpu_regs boot_target thread_regs ?s4) = None"
    by (rule set_cpu_regs_accepting) (simp_all add: boot_target_facts thread_regs_facts)
  then have e5: "e5 = None" using r by simp
  have f5: "thread_cache s5 = [ct]" "announced s5 = announced s @ [(tp ct, lwp ct)]"
    "next_lwp s5 = next_lwp s + 1"
    using set_cpu_regs_keeps [of boot_target thread_regs ?s4] r by simp_all
  have "stop_handler fuel boot_target s = Some (s5, None)"
    using assms(1) ct(1) r e5
    by (simp add: stop_handler_def k boot_get_cpu_regs boot_target_facts boot_walk_ring Let_def)
  then show ?thesis using f5 ct(2,3) by simp
qed



lemma stop_handler_inv:
  assumes "stop_handler n g s = Some (s', e)" and "session_inv s"
  shows "session_inv s'"
proof -
  from stop_handler_summary [OF assms(1)] show ?thesis
  proof (elim disjE exE conjE)
    assume "thread_cache s' = []" "announced s' = announced s" "next_lwp s' = next_lwp s"
    then show ?thesis using assms(2) by (simp add: session_inv_def)
  next
    fix ts new
    assume k: "thread_cache s' = ts @ new" "map tp ts = map tp (thread_cache s)"
      "(\<forall>t \<in> set (thread_cache s). length (regs t) = 19) \<longrightarrow> (\<forall>t \<in> set ts. length (regs t) = 19)"
      "\<forall>t \<in> set new. length (regs t) = 19"
      "announced s' = announced s @ map (\<lambda>t. (tp t, lwp t)) new"
      "distinct (map tp new)" "set (map tp new) \<inter> set (map tp ts) = {}"
      "sorted_wrt (<) (map lwp new)"
      "\<forall>t \<in> set new. next_lwp s \<le> lwp t \<and> lwp t < next_lwp s'"
      "next_lwp s \<le> next_lwp s'"
    have i: "distinct (map tp (thread_cache s))" "sorted_wrt (<) (map snd (announced s))"
      "\<forall>l \<in> set (map snd (announced s)). l < next_lwp s"
      "\<forall>t \<in> set (thread_cache s). length (regs t) = 19"
      using assms(2) by (simp_all add: session_inv_def)
    have sn: "map snd (map (\<lambda>t. (tp t, lwp t)) new) = map lwp new"
      by (simp add: comp_def)
    have 1: "distinct (map tp (thread_cache s'))"
      using k(1,2,6,7) i(1) by auto
    have 2: "sorted_wrt (<) (map snd (announced s'))"
      unfolding k(5) map_append sn sorted_wrt_append
      using i(2,3) k(8,9) by fastforce
    have 3: "\<forall>l \<in> set (map snd (announced s')). l < next_lwp s'"
      unfolding k(5) map_append sn
      using i(3) k(9,10) by fastforce
    have 4: "\<forall>t \<in> set (thread_cache s'). length (regs t) = 19"
      using k(1,3,4) i(4) by auto
    from 1 2 3 4 show ?thesis by (simp add: session_inv_def)
  qed
qed


lemma run_stops_inv:
  "run_stops n gs s = Some s' \<Longrightarrow> session_inv s \<Longrightarrow> session_inv s'"
proof (induction gs arbitrary: s)
  case Nil
  then show ?case by simp
next
  case (Cons g gs)
  then obtain s1 e where st: "stop_handler n g s = Some (s1, e)" and r: "run_stops n gs s1 = Some s'"
    by (auto split: option.splits prod.splits)
  have "session_inv s1" using st Cons.prems(2) by (rule stop_handler_inv)
  with r show ?case by (rule Cons.IH)
qed


lemma init_session_inv: "session_inv init_session" "session_linked init_session"
  by (simp_all add: session_inv_def session_linked_def init_session_def)

section \<open>Sessions of stops\<close>


text \<open>
  C10. After every sequence of stops from the initial session, every known thread has a
  register list of exactly nineteen entries, and every register capture that succeeds
  returns nineteen entries.
\<close>

theorem refreshed_registers_have_19_entries:
  assumes "run_stops fuel gs init_session = Some s"
  shows "(\<forall>t \<in> set (thread_cache s). length (regs t) = 19)
     \<and> (\<forall>g \<in> set gs. \<forall>rc. get_cpu_regs g = Inr rc \<longrightarrow> length rc = 19)"
proof -
  have "session_inv s"
    using assms init_session_inv(1) by (rule run_stops_inv)
  then show ?thesis
    by (simp add: session_inv_def length_get_cpu_regs)
qed




lemma boot_first_stop:
  "\<exists>s'. stop_handler 1 boot_target init_session = Some (s', None)
     \<and> map tp (thread_cache s') = [0x20000400] \<and> map lwp (thread_cache s') = [1]
     \<and> announced s' = [(0x20000400, 1)] \<and> next_lwp s' = 2"
  using boot_stop_fresh [of init_session 1] by (simp add: init_session_def)



lemma boot_run_once:
  "\<exists>s. run_stops 1 [boot_target] init_session = Some s
     \<and> map tp (thread_cache s) = [0x20000400] \<and> announced s = [(0x20000400, 1)]"
proof -
  obtain s' where "stop_handler 1 boot_target init_session = Some (s', None)"
    "map tp (thread_cache s') = [0x20000400]" "announced s' = [(0x20000400, 1)]"
    using boot_first_stop by auto
  then show ?thesis by simp
qed



theorem refreshed_registers_have_19_entries_witness:
  "\<exists>s. run_stops 1 [boot_target] init_session = Some s
     \<and> thread_cache s \<noteq> []
     \<and> (\<forall>t \<in> set (thread_cache s). length (regs t) = 19)
     \<and> (\<forall>g \<in> set [boot_target]. \<forall>rc. get_cpu_regs g = Inr rc \<longrightarrow> length rc = 19)
     \<and> get_cpu_regs boot_target = Inr thread_regs"
proof -
  obtain s where s: "run_stops 1 [boot_target] init_session = Some s"
    "map tp (thread_cache s) = [0x20000400]"
    using boot_run_once by auto
  have ne: "thread_cache s \<noteq> []" using s(2) by auto
  have a: "\<forall>t \<in> set (thread_cache s). length (regs t) = 19"
    and b: "\<forall>g \<in> set [boot_target]. \<forall>rc. get_cpu_regs g = Inr rc \<longrightarrow> length rc = 19"
    using refreshed_registers_have_19_entries [OF s(1)] by simp_all
  show ?thesis
    using s(1) ne a b boot_get_cpu_regs by (intro exI [of _ s] conjI)
qed

end
